theory Spec2Isabelle
  imports Main "HOL-Library.Sublist"
begin

section \<open>Strings of the source language\<close>

text \<open>
  A JavaScript string is modelled as a \<open>string\<close>: a list of code units, each below 256.
  The operations below are the library methods the source calls, written out.
\<close>

abbreviation LF :: char where "LF \<equiv> CHR 0x0A"
abbreviation CR :: char where "CR \<equiv> CHR 0x0D"

text \<open>\<open>s.split(sep)\<close> for a one-character separator: never the empty list.\<close>

fun split_on :: "char \<Rightarrow> string \<Rightarrow> string list" where
  "split_on sep [] = [[]]"
| "split_on sep (c # cs) =
     (if c = sep then [] # split_on sep cs
      else (case split_on sep cs of
              [] \<Rightarrow> [[c]]
            | l # ls \<Rightarrow> (c # l) # ls))"

text \<open>\<open>xs.join(sep)\<close>.\<close>

fun join_with :: "string \<Rightarrow> string list \<Rightarrow> string" where
  "join_with sep [] = []"
| "join_with sep [x] = x"
| "join_with sep (x # y # ys) = x @ sep @ join_with sep (y # ys)"

text \<open>\<open>xs.slice(a, b)\<close> and \<open>xs.slice(a)\<close> for indices that are not negative.\<close>

definition slice :: "'a list \<Rightarrow> nat \<Rightarrow> nat \<Rightarrow> 'a list" where
  "slice xs a b = take (b - a) (drop a xs)"

text \<open>\<open>s.includes(t)\<close>: \<open>t\<close> occurs in \<open>s\<close> as a contiguous substring.\<close>

fun str_includes :: "string \<Rightarrow> string \<Rightarrow> bool" where
  "str_includes [] t = (t = [])"
| "str_includes (c # cs) t = (prefix t (c # cs) \<or> str_includes cs t)"

text \<open>The decimal rendering of a number that is not negative, as a template literal prints it.\<close>

fun show_nat :: "nat \<Rightarrow> string" where
  "show_nat n =
     (if n < 10 then [char_of (48 + n)]
      else show_nat (n div 10) @ [char_of (48 + n mod 10)])"

declare show_nat.simps [simp del]

text \<open>
  White space as \<open>trim\<close> and \<open>trimStart\<close> see it, among the code units below 256: tab,
  line feed, vertical tab, form feed, carriage return, space and the no-break space.
\<close>

definition is_space :: "char \<Rightarrow> bool" where
  "is_space c =
     (c = CHR 0x09 \<or> c = LF \<or> c = CHR 0x0B \<or> c = CHR 0x0C \<or> c = CR
      \<or> c = CHR '' '' \<or> c = CHR 0xA0)"

definition trimStart :: "string \<Rightarrow> string" where
  "trimStart s = dropWhile is_space s"

definition trim :: "string \<Rightarrow> string" where
  "trim s = rev (dropWhile is_space (rev (dropWhile is_space s)))"

text \<open>\<open>s.startsWith(t)\<close>.\<close>

definition startsWith :: "string \<Rightarrow> string \<Rightarrow> bool" where
  "startsWith s t = prefix t s"

text \<open>\<open>s.indexOf(t)\<close>, with \<open>None\<close> for \<open>-1\<close>.\<close>

fun index_of :: "string \<Rightarrow> string \<Rightarrow> nat option" where
  "index_of [] t = (if t = [] then Some 0 else None)"
| "index_of (c # cs) t =
     (if prefix t (c # cs) then Some 0 else map_option Suc (index_of cs t))"

section \<open>Diff engine (app/api/sandbox/[sandboxId]/edit/route.ts)\<close>

definition DIFF_CONTEXT_LINES :: nat where "DIFF_CONTEXT_LINES = 3"
definition MAX_DIFF_LINES :: nat where "MAX_DIFF_LINES = 220"

text \<open>\<open>value.replace(/\r\n/g, "\n")\<close>: every CR LF pair, left to right, becomes LF.\<close>

fun normalizeLineEndings :: "string \<Rightarrow> string" where
  "normalizeLineEndings [] = []"
| "normalizeLineEndings [c] = [c]"
| "normalizeLineEndings (c # d # cs) =
     (if c = CR \<and> d = LF then LF # normalizeLineEndings cs
      else c # normalizeLineEndings (d # cs))"

text \<open>
  \<open>keepStart\<close> is \<open>Math.floor(MAX_DIFF_LINES * 0.6)\<close>; for 220 the product is 132, the
  value of the integer division below.
\<close>

definition trimDiffLines :: "string list \<Rightarrow> string list" where
  "trimDiffLines lines =
     (if length lines \<le> MAX_DIFF_LINES then lines
      else
        let keepStart = (MAX_DIFF_LINES * 6) div 10;
            keepEnd = MAX_DIFF_LINES - keepStart - 1
        in take keepStart lines @ [''... diff truncated ...'']
           @ drop (max (length lines - keepEnd) keepStart) lines)"

record diff_info =
  changed :: bool
  additions :: nat
  deletions :: nat
  diff :: string

text \<open>The first loop of \<open>createUnifiedDiff\<close>: the length of the common prefix.\<close>

function prefixLoop :: "string list \<Rightarrow> string list \<Rightarrow> nat \<Rightarrow> nat" where
  "prefixLoop beforeLines afterLines start =
     (if start < length beforeLines \<and> start < length afterLines
         \<and> beforeLines ! start = afterLines ! start
      then prefixLoop beforeLines afterLines (start + 1)
      else start)"
  by pat_completeness auto
termination
  by (relation "measure (\<lambda>(b, a, start). length b - start)") auto

declare prefixLoop.simps [simp del]

text \<open>
  The second loop: both end indices walk down while the lines agree. They are integers,
  since they start at \<open>length - 1\<close> and may reach \<open>start - 1\<close>, which is \<open>-1\<close> for empty ranges.
\<close>

function suffixLoop :: "string list \<Rightarrow> string list \<Rightarrow> int \<Rightarrow> int \<Rightarrow> int \<Rightarrow> int \<times> int" where
  "suffixLoop beforeLines afterLines start beforeEnd afterEnd =
     (if beforeEnd \<ge> start \<and> afterEnd \<ge> start
         \<and> beforeLines ! nat beforeEnd = afterLines ! nat afterEnd
      then suffixLoop beforeLines afterLines start (beforeEnd - 1) (afterEnd - 1)
      else (beforeEnd, afterEnd))"
  by pat_completeness auto
termination
  by (relation "measure (\<lambda>(b, a, start, beforeEnd, afterEnd). nat (beforeEnd - start + 1))") auto

declare suffixLoop.simps [simp del]

definition createUnifiedDiff :: "string \<Rightarrow> string \<Rightarrow> string \<Rightarrow> diff_info" where
  "createUnifiedDiff filePath previousContent nextContent =
     (let beforeLines = split_on LF (normalizeLineEndings previousContent);
          afterLines = split_on LF (normalizeLineEndings nextContent)
      in
      if previousContent = nextContent then
        \<lparr> changed = False, additions = 0, deletions = 0,
          diff = ''--- a/'' @ filePath @ [LF] @ ''+++ b/'' @ filePath @ [LF] @ ''(No changes)'' \<rparr>
      else
        let start = prefixLoop beforeLines afterLines 0;
            ends = suffixLoop beforeLines afterLines (int start)
                     (int (length beforeLines) - 1) (int (length afterLines) - 1);
            beforeEnd = fst ends;
            afterEnd = snd ends;
            removed = (if beforeEnd \<ge> int start
                       then slice beforeLines start (nat (beforeEnd + 1)) else []);
            added = (if afterEnd \<ge> int start
                     then slice afterLines start (nat (afterEnd + 1)) else []);
            preStart = nat (max 0 (int start - int DIFF_CONTEXT_LINES));
            preContext = slice beforeLines preStart start;
            postFrom = nat (max (beforeEnd + 1) (int start));
            postContext = slice beforeLines postFrom (postFrom + DIFF_CONTEXT_LINES);
            hunkOldStart = preStart + 1;
            hunkNewStart = preStart + 1;
            hunkOldCount = length preContext + length removed + length postContext;
            hunkNewCount = length preContext + length added + length postContext;
            diffLines =
              [''--- a/'' @ filePath,
               ''+++ b/'' @ filePath,
               ''@@ -'' @ show_nat hunkOldStart @ '','' @ show_nat hunkOldCount
                 @ '' +'' @ show_nat hunkNewStart @ '','' @ show_nat hunkNewCount @ '' @@'']
              @ map (\<lambda>line. CHR '' '' # line) preContext
              @ map (\<lambda>line. CHR ''-'' # line) removed
              @ map (\<lambda>line. CHR ''+'' # line) added
              @ map (\<lambda>line. CHR '' '' # line) postContext
        in \<lparr> changed = True, additions = length added, deletions = length removed,
             diff = join_with [LF] (trimDiffLines diffLines) \<rparr>)"

definition createDeletedFileDiff :: "string \<Rightarrow> string \<Rightarrow> diff_info" where
  "createDeletedFileDiff filePath previousContent =
     (let beforeLines = split_on LF (normalizeLineEndings previousContent);
          diffLines =
            [''--- a/'' @ filePath,
             ''+++ /dev/null'',
             ''@@ -1,'' @ show_nat (length beforeLines) @ '' +0,0 @@'']
            @ map (\<lambda>line. CHR ''-'' # line) beforeLines
      in \<lparr> changed = True, additions = 0, deletions = length beforeLines,
           diff = join_with [LF] (trimDiffLines diffLines) \<rparr>)"

section \<open>Edit orchestrator (app/api/sandbox/[sandboxId]/edit/route.ts)\<close>

text \<open>
  A \<open>NormalizedEdit\<close> is either \<open>{path, delete: true}\<close> or \<open>{path, content}\<close>.
\<close>

datatype normalized_edit = DeleteEdit string | ContentEdit string string

fun edit_path :: "normalized_edit \<Rightarrow> string" where
  "edit_path (DeleteEdit p) = p"
| "edit_path (ContentEdit p c) = p"

fun edit_delete :: "normalized_edit \<Rightarrow> bool" where
  "edit_delete (DeleteEdit p) = True"
| "edit_delete (ContentEdit p c) = False"

record file_edit_preview =
  pv_path :: string
  pv_additions :: nat
  pv_deletions :: nat
  pv_changed :: bool
  isNewFile :: bool
  isDeleted :: bool
  pv_diff :: string

text \<open>
  The remote workspace is outside the program. Its file operations are parameters, over a
  workspace state \<open>'fs\<close>:
  \<^item> \<open>readProjectFile\<close> returns \<open>Inr None\<close> for \<open>null\<close> (the file does not exist),
    \<open>Inr (Some c)\<close> for the content, and \<open>Inl m\<close> when the call throws an error with message \<open>m\<close>;
  \<^item> \<open>writeProjectFile\<close> and \<open>deleteProjectFile\<close> return \<open>None\<close> on success and \<open>Some m\<close>
    when they throw an error with message \<open>m\<close> (the empty string for no message), with the
    workspace state they leave behind.
\<close>

record 'fs sandbox =
  readProjectFile :: "'fs \<Rightarrow> string \<Rightarrow> string + string option"
  writeProjectFile :: "'fs \<Rightarrow> string \<Rightarrow> string \<Rightarrow> string option \<times> 'fs"
  deleteProjectFile :: "'fs \<Rightarrow> string \<Rightarrow> string option \<times> 'fs"

text \<open>
  The loop of \<open>POST\<close> that builds \<open>previews\<close> and \<open>effectiveEdits\<close> (both returned in the
  order the loop pushes them). A read that throws leaves the loop with the error.
\<close>

fun previewLoop ::
  "'fs sandbox \<Rightarrow> 'fs \<Rightarrow> normalized_edit list
    \<Rightarrow> string + (file_edit_preview list \<times> normalized_edit list)" where
  "previewLoop sb fs [] = Inr ([], [])"
| "previewLoop sb fs (edit # rest) =
     (case readProjectFile sb fs (edit_path edit) of
        Inl err \<Rightarrow> Inl err
      | Inr previousContentOrNull \<Rightarrow>
          let previousContent = (case previousContentOrNull of None \<Rightarrow> [] | Some c \<Rightarrow> c);
              isDelete = edit_delete edit
          in
          if isDelete \<and> previousContentOrNull = None then previewLoop sb fs rest
          else
            let isNew = (previousContentOrNull = None \<and> \<not> isDelete);
                diffInfo =
                  (case edit of
                     DeleteEdit p \<Rightarrow> createDeletedFileDiff p previousContent
                   | ContentEdit p c \<Rightarrow> createUnifiedDiff p previousContent c);
                preview =
                  \<lparr> pv_path = edit_path edit,
                    pv_additions = additions diffInfo,
                    pv_deletions = deletions diffInfo,
                    pv_changed = (changed diffInfo \<or> isNew),
                    isNewFile = isNew,
                    isDeleted = isDelete,
                    pv_diff = diff diffInfo \<rparr>
            in
            (case previewLoop sb fs rest of
               Inl err \<Rightarrow> Inl err
             | Inr (previews, effectiveEdits) \<Rightarrow>
                 Inr (preview # previews,
                      if isDelete \<or> changed diffInfo \<or> isNew
                      then edit # effectiveEdits else effectiveEdits)))"

text \<open>
  The apply loop: every edit is tried in turn; a throw is caught and recorded with
  \<open>error?.message || "apply failed"\<close>, and the loop goes on.
\<close>

fun applyLoop ::
  "'fs sandbox \<Rightarrow> 'fs \<Rightarrow> normalized_edit list
    \<Rightarrow> string list \<times> (string \<times> string) list \<times> 'fs" where
  "applyLoop sb fs [] = ([], [], fs)"
| "applyLoop sb fs (edit # rest) =
     (let (thrown, fs') =
            (case edit of
               DeleteEdit p \<Rightarrow> deleteProjectFile sb fs p
             | ContentEdit p c \<Rightarrow> writeProjectFile sb fs p c);
          (applied, failed, fs'') = applyLoop sb fs' rest
      in case thrown of
           None \<Rightarrow> (edit_path edit # applied, failed, fs'')
         | Some msg \<Rightarrow>
             (applied,
              (edit_path edit, if msg = [] then ''apply failed'' else msg) # failed,
              fs''))"

datatype edit_mode = Preview | Apply

text \<open>
  The JSON responses of the route: \<open>jsonError(message, status)\<close>, the preview payload
  \<open>{summary, notes, proposedEdits, previews, contextFiles}\<close> and the apply payload
  \<open>{summary, notes, applied, failed, previews, contextFiles}\<close>.
\<close>

datatype response =
    JsonError string nat
  | PreviewResponse string "string list" "normalized_edit list" "file_edit_preview list"
      "string list"
  | ApplyResponse string "string list" "string list" "(string \<times> string) list"
      "file_edit_preview list" "string list"

definition plural :: "nat \<Rightarrow> string" where
  "plural n = (if n = 1 then [] else ''s'')"

text \<open>
  \<open>POST\<close> from the point where \<open>normalizedEdits\<close>, \<open>summary\<close>, \<open>notes\<close> and
  \<open>contextFilePaths\<close> are known, with the workspace state it leaves behind. A throw inside
  the \<open>try\<close> block is answered by \<open>jsonError(error?.message || "Failed to apply sandbox edit", 500)\<close>.
\<close>

definition POST_edits ::
  "'fs sandbox \<Rightarrow> 'fs \<Rightarrow> edit_mode \<Rightarrow> string \<Rightarrow> string list \<Rightarrow> string list
    \<Rightarrow> normalized_edit list \<Rightarrow> response \<times> 'fs" where
  "POST_edits sb fs mode summary notes contextFilePaths normalizedEdits =
     (if normalizedEdits = [] then
        (JsonError ''Model did not return any applicable file edits'' 422, fs)
      else
        case previewLoop sb fs normalizedEdits of
          Inl err \<Rightarrow>
            (JsonError (if err = [] then ''Failed to apply sandbox edit'' else err) 500, fs)
        | Inr (previews, effectiveEdits) \<Rightarrow>
            if effectiveEdits = [] then
              (JsonError ''No file changes detected from instruction'' 422, fs)
            else if mode = Preview then
              (PreviewResponse
                 (if summary \<noteq> [] then summary
                  else ''Prepared '' @ show_nat (length effectiveEdits) @ '' change''
                       @ plural (length effectiveEdits))
                 notes effectiveEdits previews contextFilePaths, fs)
            else
              let (applied, failed, fs') = applyLoop sb fs effectiveEdits in
              if applied = [] then (JsonError ''No edits were applied'' 500, fs')
              else
                (ApplyResponse
                   (if summary \<noteq> [] then summary
                    else ''Applied '' @ show_nat (length applied) @ '' file edit''
                         @ plural (length applied))
                   notes applied failed previews contextFilePaths, fs'))"

text \<open>
  A workspace held in memory, for running the route on concrete inputs: the state is the
  list of (path, content) pairs, reads never throw, and a write or delete of a path in
  \<open>readonly\<close> throws the error the source's helpers throw on a non-zero exit code.
\<close>

definition memorySandbox :: "string list \<Rightarrow> ((string \<times> string) list) sandbox" where
  "memorySandbox readonly =
     \<lparr> readProjectFile = (\<lambda>fs p. Inr (map_of fs p)),
       writeProjectFile = (\<lambda>fs p c.
         if p \<in> set readonly then (Some (''Failed to write '' @ p), fs)
         else (None, (p, c) # filter (\<lambda>e. fst e \<noteq> p) fs)),
       deleteProjectFile = (\<lambda>fs p.
         if p \<in> set readonly then (Some (''Failed to delete '' @ p), fs)
         else (None, filter (\<lambda>e. fst e \<noteq> p) fs)) \<rparr>"

text \<open>
  The apply loop seen from the workspace. \<open>runEdit\<close> is the one call the loop makes for
  an edit; \<open>workspaceAfter\<close> is the workspace those calls leave, made one after the other;
  \<open>outcomeAt\<close> is what the call for the edit at position \<open>i\<close> returns, on the workspace
  the calls before it have left; \<open>failureReason\<close> is \<open>error?.message || "apply failed"\<close>.
\<close>

definition runEdit :: "'fs sandbox \<Rightarrow> 'fs \<Rightarrow> normalized_edit \<Rightarrow> string option \<times> 'fs" where
  "runEdit sb fs edit =
     (case edit of
        DeleteEdit p \<Rightarrow> deleteProjectFile sb fs p
      | ContentEdit p c \<Rightarrow> writeProjectFile sb fs p c)"

definition workspaceAfter :: "'fs sandbox \<Rightarrow> 'fs \<Rightarrow> normalized_edit list \<Rightarrow> 'fs" where
  "workspaceAfter sb fs edits = foldl (\<lambda>s edit. snd (runEdit sb s edit)) fs edits"

definition outcomeAt :: "'fs sandbox \<Rightarrow> 'fs \<Rightarrow> normalized_edit list \<Rightarrow> nat \<Rightarrow> string option" where
  "outcomeAt sb fs edits i = fst (runEdit sb (workspaceAfter sb fs (take i edits)) (edits ! i))"

fun failureReason :: "string option \<Rightarrow> string" where
  "failureReason None = []"
| "failureReason (Some msg) = (if msg = [] then ''apply failed'' else msg)"

section \<open>Stage classifier (hooks/useGenerationSession.ts)\<close>

datatype generation_stage =
    S_queued | S_creating_sandbox | S_generating_code | S_installing_deps
  | S_starting_preview | S_ready

text \<open>
  The fixed ordering of the stages: the index of a stage in the array \<open>STAGE_ORDER\<close>.
\<close>

definition STAGE_ORDER :: "generation_stage list" where
  "STAGE_ORDER =
     [S_queued, S_creating_sandbox, S_generating_code, S_installing_deps,
      S_starting_preview, S_ready]"

fun stage_index :: "generation_stage \<Rightarrow> nat" where
  "stage_index S_queued = 0"
| "stage_index S_creating_sandbox = 1"
| "stage_index S_generating_code = 2"
| "stage_index S_installing_deps = 3"
| "stage_index S_starting_preview = 4"
| "stage_index S_ready = 5"

text \<open>
  \<open>s.toLowerCase()\<close> on code units below 256: the letters A to Z and the upper-case
  letters of Latin-1 (0xC0 to 0xDE, without the multiplication sign 0xD7) move up by 32.
\<close>

definition lower_char :: "char \<Rightarrow> char" where
  "lower_char c =
     (let n = (of_char c :: nat)
      in if (65 \<le> n \<and> n \<le> 90) \<or> (192 \<le> n \<and> n \<le> 222 \<and> n \<noteq> 215)
         then char_of (n + 32) else c)"

definition toLowerCase :: "string \<Rightarrow> string" where
  "toLowerCase s = map lower_char s"

definition inferStageFromProgress :: "string \<Rightarrow> generation_stage \<Rightarrow> generation_stage" where
  "inferStageFromProgress message current =
     (let text = toLowerCase message
      in
      if str_includes text ''creating new daytona sandbox''
         \<or> str_includes text ''using existing sandbox''
         \<or> str_includes text ''sandbox created''
         \<or> str_includes text ''connected to sandbox''
      then S_creating_sandbox
      else if str_includes text ''running vercel ai gateway generation''
         \<or> str_includes text ''parsing generated code''
         \<or> str_includes text ''writing''
         \<or> str_includes text ''generation output''
      then S_generating_code
      else if str_includes text ''installing project dependencies''
         \<or> str_includes text ''dependencies installed''
         \<or> str_includes text ''npm install''
      then S_installing_deps
      else if str_includes text ''starting development server''
         \<or> str_includes text ''waiting for server to start''
         \<or> str_includes text ''getting preview url''
         \<or> str_includes text ''preview url:''
      then S_starting_preview
      else current)"

text \<open>
  The stages a run of progress messages derives: each message updates the stage with
  \<open>inferStageFromProgress(message, prev.stage)\<close>, as the progress branch of \<open>start\<close> does.
\<close>

fun stageSequence :: "generation_stage \<Rightarrow> string list \<Rightarrow> generation_stage list" where
  "stageSequence current [] = []"
| "stageSequence current (message # rest) =
     (let next = inferStageFromProgress message current
      in next # stageSequence next rest)"

text \<open>A list of stages that never steps back in the fixed ordering.\<close>

fun non_decreasing :: "generation_stage list \<Rightarrow> bool" where
  "non_decreasing [] = True"
| "non_decreasing [s] = True"
| "non_decreasing (s # t # rest) = (stage_index s \<le> stage_index t \<and> non_decreasing (t # rest))"

section \<open>Checkpoint store (lib/client/sandbox-checkpoints.ts, the generate page)\<close>

record snapshot_file =
  sf_path :: string
  sf_content :: string

record sandbox_checkpoint =
  cp_id :: string
  cp_label :: string
  cp_createdAt :: nat
  cp_prompt :: string
  cp_files :: "snapshot_file list"
  cp_fileCount :: nat
  cp_totalBytes :: nat
  cp_truncated :: bool

definition MAX_CHECKPOINTS :: nat where "MAX_CHECKPOINTS = 8"

text \<open>
  The browser's local storage maps a key to an item. What \<open>JSON.parse\<close> makes of an item
  is part of the model: text that does not parse (or is empty), a value that is not an
  array, or an array, whose elements either pass \<open>isSandboxCheckpoint\<close> or do not.
  \<open>JSON.stringify\<close> of a list of checkpoints is read back as that list. A storage of
  \<open>None\<close> stands for \<open>typeof window === "undefined"\<close>.
\<close>

datatype stored_entry = WellFormed sandbox_checkpoint | Malformed

datatype stored_item = NotJson | NotArray | JsonArray "stored_entry list"

type_synonym local_storage = "(string \<rightharpoonup> stored_item) option"

definition getCheckpointStorageKey :: "string \<Rightarrow> string" where
  "getCheckpointStorageKey sandboxId = ''lovable:sandbox-checkpoints:'' @ sandboxId"

fun wellFormedEntries :: "stored_entry list \<Rightarrow> sandbox_checkpoint list" where
  "wellFormedEntries [] = []"
| "wellFormedEntries (WellFormed c # es) = c # wellFormedEntries es"
| "wellFormedEntries (Malformed # es) = wellFormedEntries es"

definition loadSandboxCheckpoints :: "local_storage \<Rightarrow> string \<Rightarrow> sandbox_checkpoint list" where
  "loadSandboxCheckpoints storage sandboxId =
     (case storage of
        None \<Rightarrow> []
      | Some items \<Rightarrow>
          if sandboxId = [] then []
          else (case items (getCheckpointStorageKey sandboxId) of
                  None \<Rightarrow> []
                | Some NotJson \<Rightarrow> []
                | Some NotArray \<Rightarrow> []
                | Some (JsonArray parsed) \<Rightarrow> take MAX_CHECKPOINTS (wellFormedEntries parsed)))"

text \<open>
  \<open>setItemOk\<close> is whether \<open>localStorage.setItem\<close> returns; when it throws (quota, storage
  not available) the error is caught and the storage stays as it was.
\<close>

definition persistSandboxCheckpoints ::
  "bool \<Rightarrow> local_storage \<Rightarrow> string \<Rightarrow> sandbox_checkpoint list \<Rightarrow> local_storage" where
  "persistSandboxCheckpoints setItemOk storage sandboxId checkpoints =
     (case storage of
        None \<Rightarrow> None
      | Some items \<Rightarrow>
          if sandboxId = [] \<or> \<not> setItemOk then Some items
          else Some (items(getCheckpointStorageKey sandboxId \<mapsto>
                 JsonArray (map WellFormed (take MAX_CHECKPOINTS checkpoints)))))"

text \<open>
  The page keeps the list in its state \<open>checkpoints\<close>, loaded from the storage when the
  sandbox id is known. \<open>createCheckpointSnapshot\<close>, once it has built the checkpoint,
  runs \<open>setCheckpoints(prev => { next = [checkpoint, ...prev].slice(0, 8); persist(next); return next })\<close>.
\<close>

record checkpoint_state =
  checkpoints :: "sandbox_checkpoint list"
  storage :: local_storage

definition initialCheckpointState :: "local_storage \<Rightarrow> string \<Rightarrow> checkpoint_state" where
  "initialCheckpointState st sandboxId =
     \<lparr> checkpoints = loadSandboxCheckpoints st sandboxId, storage = st \<rparr>"

definition createCheckpointSnapshot ::
  "string \<Rightarrow> checkpoint_state \<Rightarrow> bool \<times> sandbox_checkpoint \<Rightarrow> checkpoint_state" where
  "createCheckpointSnapshot sandboxId state creation =
     (let next = take 8 (snd creation # checkpoints state)
      in \<lparr> checkpoints = next,
           storage = persistSandboxCheckpoints (fst creation) (storage state) sandboxId next \<rparr>)"

text \<open>A sequence of creations, oldest first, each with whether its \<open>setItem\<close> returned.\<close>

definition createAll ::
  "string \<Rightarrow> checkpoint_state \<Rightarrow> (bool \<times> sandbox_checkpoint) list \<Rightarrow> checkpoint_state" where
  "createAll sandboxId state creations = foldl (createCheckpointSnapshot sandboxId) state creations"

text \<open>A checkpoint of one file, created at time \<open>t\<close>, for running the store on concrete inputs.\<close>

definition exampleCheckpoint :: "nat \<Rightarrow> sandbox_checkpoint" where
  "exampleCheckpoint t =
     \<lparr> cp_id = ''checkpoint-'' @ show_nat t, cp_label = ''v'', cp_createdAt = t,
       cp_prompt = ''p'',
       cp_files = [\<lparr> sf_path = ''app/page.tsx'', sf_content = show_nat t \<rparr>],
       cp_fileCount = 1, cp_totalBytes = length (show_nat t), cp_truncated = False \<rparr>"

section \<open>Frame decoder (lib/client/sse.ts)\<close>

text \<open>The parser state is its buffer.\<close>

fun normalizeChunk :: "string \<Rightarrow> string" where
  "normalizeChunk [] = []"
| "normalizeChunk [c] = [c]"
| "normalizeChunk (c # d # cs) =
     (if c = CR \<and> d = LF then LF # normalizeChunk cs
      else c # normalizeChunk (d # cs))"

text \<open>
  The data lines of a raw event: the lines that start with \<open>data:\<close>, without that marker
  and the white space after it.
\<close>

definition dataLinesOf :: "string \<Rightarrow> string list" where
  "dataLinesOf rawEvent =
     map (\<lambda>line. trimStart (drop 5 line))
       (filter (\<lambda>line. startsWith line ''data:'') (split_on LF rawEvent))"

lemma index_of_bound: "index_of s t = Some i \<Longrightarrow> i + length t \<le> length s"
proof (induction s arbitrary: i)
  case Nil
  then show ?case by (simp split: if_splits)
next
  case (Cons c cs)
  show ?case
  proof (cases "prefix t (c # cs)")
    case True
    with Cons.prems show ?thesis using prefix_length_le[of t "c # cs"] by simp
  next
    case False
    with Cons.prems obtain j where "index_of cs t = Some j" "i = Suc j" by auto
    with Cons.IH show ?thesis by simp
  qed
qed

text \<open>
  The \<open>while (true)\<close> loop of \<open>consumeSseDataFrames\<close> on the buffer: it returns the
  frames it pushed and the buffer it leaves.
\<close>

function extractFrames :: "string \<Rightarrow> string list \<times> string" where
  "extractFrames buffer =
     (case index_of buffer [LF, LF] of
        None \<Rightarrow> ([], buffer)
      | Some delimiterIndex \<Rightarrow>
          let rawEvent = take delimiterIndex buffer;
              dataLines = dataLinesOf rawEvent;
              rest = extractFrames (drop (delimiterIndex + 2) buffer)
          in ((if dataLines \<noteq> [] then [join_with [LF] dataLines] else []) @ fst rest,
              snd rest))"
  by pat_completeness auto
termination
proof (relation "measure length")
  show "wf (measure length)" by simp
next
  fix buffer :: string and i
  assume "index_of buffer [LF, LF] = Some i"
  then have "i + 2 \<le> length buffer" using index_of_bound[of buffer "[LF, LF]" i] by simp
  then show "(drop (i + 2) buffer, buffer) \<in> measure length" by simp
qed

declare extractFrames.simps [simp del]

definition consumeSseDataFrames :: "string \<Rightarrow> string \<Rightarrow> string list \<times> string" where
  "consumeSseDataFrames buffer chunk = extractFrames (buffer @ normalizeChunk chunk)"

definition flushSseDataFrames :: "string \<Rightarrow> string list \<times> string" where
  "flushSseDataFrames buffer =
     (if trim buffer = [] then ([], [])
      else
        let dataLines = dataLinesOf buffer
        in (if dataLines \<noteq> [] then [join_with [LF] dataLines] else [], []))"

text \<open>Feeding the chunks of a stream one by one, then flushing.\<close>

fun feedChunks :: "string \<Rightarrow> string list \<Rightarrow> string list \<times> string" where
  "feedChunks buffer [] = ([], buffer)"
| "feedChunks buffer (chunk # chunks) =
     (let fed = consumeSseDataFrames buffer chunk;
          rest = feedChunks (snd fed) chunks
      in (fst fed @ fst rest, snd rest))"

definition decodeStream :: "string list \<Rightarrow> string list" where
  "decodeStream chunks =
     (let fed = feedChunks [] chunks
      in fst fed @ fst (flushSseDataFrames (snd fed)))"

section \<open>Edit proposal normalizer (app/api/sandbox/[sandboxId]/edit/route.ts)\<close>

text \<open>
  \<open>path.posix.normalize\<close> is the function of the Node.js library. Its algorithm, on the
  segments between slashes: an empty segment and \<open>.\<close> are skipped; \<open>..\<close> removes the
  last segment of the result unless the result is empty or ends in \<open>..\<close>, in which case
  \<open>..\<close> is kept if the path is relative and skipped if it is absolute; any other
  segment is appended. An empty result is \<open>.\<close> (\<open>./\<close> with a trailing slash, \<open>/\<close> for an
  absolute path); a trailing slash is kept.
\<close>

fun normalizeString :: "bool \<Rightarrow> string list \<Rightarrow> string list \<Rightarrow> string list" where
  "normalizeString allowAboveRoot res [] = res"
| "normalizeString allowAboveRoot res (seg # segs) =
     (if seg = [] \<or> seg = ''.'' then normalizeString allowAboveRoot res segs
      else if seg = ''..'' then
        (if res \<noteq> [] \<and> last res \<noteq> ''..''
         then normalizeString allowAboveRoot (butlast res) segs
         else if allowAboveRoot then normalizeString allowAboveRoot (res @ [''..'']) segs
         else normalizeString allowAboveRoot res segs)
      else normalizeString allowAboveRoot (res @ [seg]) segs)"

definition posix_normalize :: "string \<Rightarrow> string" where
  "posix_normalize path =
     (if path = [] then ''.''
      else
        let isAbsolute = (hd path = CHR ''/'');
            trailingSeparator = (last path = CHR ''/'');
            p = join_with ''/'' (normalizeString (\<not> isAbsolute) [] (split_on CHR ''/'' path))
        in if p = [] then (if isAbsolute then ''/'' else if trailingSeparator then ''./'' else ''.'')
           else (if isAbsolute then ''/'' else []) @ p @ (if trailingSeparator then ''/'' else []))"

text \<open>\<open>s.replace(/^\.\/+/, "")\<close>: a leading \<open>./\<close> goes, with every slash after it.\<close>

definition stripDotSlash :: "string \<Rightarrow> string" where
  "stripDotSlash s =
     (if prefix ''./'' s then dropWhile (\<lambda>c. c = CHR ''/'') (drop 1 s) else s)"

text \<open>
  \<open>normalizeRelativeSandboxPath\<close>: \<open>Inl\<close> is the message of the error it throws. Its
  argument is a string, so the first check of the source never fires.
\<close>

definition normalizeRelativeSandboxPath :: "string \<Rightarrow> string + string" where
  "normalizeRelativeSandboxPath input =
     (if CHR 0x00 \<in> set input then Inl ''Path contains invalid characters''
      else
        let normalizedInput = trim (map (\<lambda>c. if c = CHR 0x5C then CHR ''/'' else c) input)
        in if normalizedInput = [] then Inr []
           else if startsWith normalizedInput ''/'' then Inl ''Absolute paths are not allowed''
           else
             let normalized = stripDotSlash (posix_normalize normalizedInput)
             in if normalized = ''..'' \<or> startsWith normalized ''../''
                then Inl ''Path traversal is not allowed''
                else Inr (if normalized = ''.'' then [] else normalized))"

text \<open>
  A field of a candidate has type \<open>unknown\<close>: what matters to the normalizer is whether it
  is a string, the value \<open>true\<close>, or anything else (missing included). An element of the
  candidate array is an object with such fields or, coming from parsed JSON, \<open>null\<close>; any
  other JSON value reads as an object without fields.
\<close>

datatype jsval = JString string | JTrue | JOther

record ai_edit_candidate =
  c_path :: jsval
  c_content :: jsval
  c_delete :: jsval

datatype candidate_elem = NullElement | Candidate ai_edit_candidate

definition MAX_APPLY_EDITS :: nat where "MAX_APPLY_EDITS = 20"

text \<open>
  The loop of \<open>normalizeCandidateEdits\<close>, with its two accumulators. Reading \<open>edit.path\<close>
  of \<open>null\<close> throws a \<open>TypeError\<close>, which the function does not catch: \<open>Inl\<close>.
\<close>

fun normalizeLoop ::
  "candidate_elem list \<Rightarrow> normalized_edit list \<Rightarrow> string set \<Rightarrow> string + normalized_edit list" where
  "normalizeLoop [] normalizedEdits seenPaths = Inr normalizedEdits"
| "normalizeLoop (edit # rest) normalizedEdits seenPaths =
     (if length normalizedEdits \<ge> MAX_APPLY_EDITS then Inr normalizedEdits
      else
        case edit of
          NullElement \<Rightarrow> Inl ''TypeError: Cannot read properties of null (reading path)''
        | Candidate c \<Rightarrow>
            let rawPath = (case c_path c of JString s \<Rightarrow> s | JTrue \<Rightarrow> [] | JOther \<Rightarrow> []);
                hasStringContent =
                  (case c_content c of JString s \<Rightarrow> True | JTrue \<Rightarrow> False | JOther \<Rightarrow> False);
                isDelete = (c_delete c = JTrue)
            in
            if rawPath = [] \<or> (\<not> hasStringContent \<and> \<not> isDelete)
            then normalizeLoop rest normalizedEdits seenPaths
            else
              case normalizeRelativeSandboxPath rawPath of
                Inl err \<Rightarrow> normalizeLoop rest normalizedEdits seenPaths
              | Inr normalizedPath \<Rightarrow>
                  if normalizedPath = [] \<or> normalizedPath \<in> seenPaths
                  then normalizeLoop rest normalizedEdits seenPaths
                  else
                    normalizeLoop rest
                      (normalizedEdits @
                         [if isDelete then DeleteEdit normalizedPath
                          else ContentEdit normalizedPath
                                 (case c_content c of JString s \<Rightarrow> s | JTrue \<Rightarrow> [] | JOther \<Rightarrow> [])])
                      (insert normalizedPath seenPaths))"

definition normalizeCandidateEdits :: "candidate_elem list \<Rightarrow> string + normalized_edit list" where
  "normalizeCandidateEdits candidateEdits = normalizeLoop candidateEdits [] {}"

text \<open>
  What the orchestrator relies on for a path it is about to write: it is not empty, has
  no null character, does not start at the root and has no \<open>..\<close> segment.
\<close>

definition safe_path :: "string \<Rightarrow> bool" where
  "safe_path p =
     (p \<noteq> [] \<and> CHR 0x00 \<notin> set p \<and> \<not> startsWith p ''/''
      \<and> ''..'' \<notin> set (split_on CHR ''/'' p))"

text \<open>
  The raw paths the normalizer is to reject: a null character, a leading slash, or a
  normal form that is \<open>..\<close> or starts with \<open>../\<close>.
\<close>

definition rejected_path :: "string \<Rightarrow> bool" where
  "rejected_path raw =
     (CHR 0x00 \<in> set raw \<or> startsWith raw ''/''
      \<or> (let n = posix_normalize (trim (map (\<lambda>c. if c = CHR 0x5C then CHR ''/'' else c) raw))
          in n = ''..'' \<or> startsWith n ''../''))"

fun rejected_candidate :: "candidate_elem \<Rightarrow> bool" where
  "rejected_candidate NullElement = False"
| "rejected_candidate (Candidate c) =
     (case c_path c of JString raw \<Rightarrow> rejected_path raw | JTrue \<Rightarrow> False | JOther \<Rightarrow> False)"

text \<open>
  The normalizer in the words of its contract, to compare the loop with: each candidate
  stands for at most one edit, of the edits with the same path the first is kept, and
  the result stops at the maximum.
\<close>

fun candidateToEdit :: "candidate_elem \<Rightarrow> normalized_edit option" where
  "candidateToEdit NullElement = None"
| "candidateToEdit (Candidate c) =
     (case c_path c of
        JString rawPath \<Rightarrow>
          if rawPath = [] then None
          else (case normalizeRelativeSandboxPath rawPath of
                  Inl err \<Rightarrow> None
                | Inr normalizedPath \<Rightarrow>
                    if normalizedPath = [] then None
                    else if c_delete c = JTrue then Some (DeleteEdit normalizedPath)
                    else (case c_content c of
                            JString s \<Rightarrow> Some (ContentEdit normalizedPath s)
                          | JTrue \<Rightarrow> None
                          | JOther \<Rightarrow> None))
      | JTrue \<Rightarrow> None
      | JOther \<Rightarrow> None)"

fun keepFirstByPath :: "normalized_edit list \<Rightarrow> string set \<Rightarrow> normalized_edit list" where
  "keepFirstByPath [] seen = []"
| "keepFirstByPath (e # es) seen =
     (if edit_path e \<in> seen then keepFirstByPath es seen
      else e # keepFirstByPath es (insert (edit_path e) seen))"

section \<open>Generation session (hooks/useGenerationSession.ts)\<close>

datatype generation_lifecycle =
    L_idle | L_requesting | L_streaming | L_provisioning_preview | L_ready | L_failed
  | L_canceled

text \<open>
  An event as \<open>JSON.parse\<close> returns it. \<open>ev_type\<close> is \<open>None\<close> when \<open>type\<close> is not a
  string; the optional fields are strings when present, as \<open>RawGenerationEvent\<close>
  declares; \<open>ev_other\<close> stands for the fields the hook only carries along (\<open>content\<close>,
  \<open>name\<close>, \<open>input\<close>, \<open>result\<close>).
\<close>

record raw_generation_event =
  ev_type :: "string option"
  ev_message :: "string option"
  ev_previewUrl :: "string option"
  ev_sandboxId :: "string option"
  ev_other :: string

text \<open>
  \<open>JSON.parse\<close> is outside the program: it throws, returns \<open>null\<close>, or returns a value
  whose properties can be read (a value that is no object reads as an event without
  fields).
\<close>

datatype parse_result = ParseError | JsonNull | JsonEvent raw_generation_event

text \<open>A message of the log; its \<open>createdAt\<close> is the clock's and is left out.\<close>

record generation_message =
  msg_id :: string
  msg_event :: raw_generation_event

record generation_session_state =
  s_messages :: "generation_message list"
  s_previewUrl :: "string option"
  s_sandboxId :: "string option"
  s_lifecycle :: generation_lifecycle
  s_stage :: generation_stage
  s_error :: "string option"
  s_lastProgress :: "string option"
  s_parseWarnings :: nat

definition INITIAL_STATE :: generation_session_state where
  "INITIAL_STATE =
     \<lparr> s_messages = [], s_previewUrl = None, s_sandboxId = None, s_lifecycle = L_idle,
       s_stage = S_queued, s_error = None, s_lastProgress = None, s_parseWarnings = 0 \<rparr>"

text \<open>
  Truthiness of an optional string, and \<open>a || b\<close>: \<open>undefined\<close>, \<open>null\<close> and the empty
  string are falsy.
\<close>

fun truthy :: "string option \<Rightarrow> bool" where
  "truthy None = False"
| "truthy (Some s) = (s \<noteq> [])"

definition or_else :: "string option \<Rightarrow> string option \<Rightarrow> string option" where
  "or_else a b = (if truthy a then a else b)"

text \<open>
  The hook: the React state and the refs that every run shares. A controller is named by
  the request id of the run that made it; \<open>aborted\<close> holds the controllers whose
  \<open>abort()\<close> was called, which is what \<open>controller.signal.aborted\<close> reads.
\<close>

record hook =
  state :: generation_session_state
  abortControllerRef :: "nat option"
  latestPromptRef :: string
  parserStateRef :: string
  messageCounterRef :: nat
  requestIdRef :: nat
  aborted :: "nat set"

definition initialHook :: hook where
  "initialHook =
     \<lparr> state = INITIAL_STATE, abortControllerRef = None, latestPromptRef = [],
       parserStateRef = [], messageCounterRef = 0, requestIdRef = 0, aborted = {} \<rparr>"

definition createMessageId :: "nat \<Rightarrow> string" where
  "createMessageId counter = ''gen-msg-'' @ show_nat counter"

definition appendMessage :: "raw_generation_event \<Rightarrow> hook \<Rightarrow> hook" where
  "appendMessage message h =
     (let counter = messageCounterRef h + 1;
          enriched = \<lparr> msg_id = createMessageId counter, msg_event = message \<rparr>
      in h\<lparr> messageCounterRef := counter,
             state := (state h)\<lparr> s_messages := s_messages (state h) @ [enriched] \<rparr> \<rparr>)"

definition cancel :: "hook \<Rightarrow> hook" where
  "cancel h =
     (case abortControllerRef h of
        None \<Rightarrow> h
      | Some controller \<Rightarrow>
          h\<lparr> aborted := insert controller (aborted h),
             abortControllerRef := None,
             state := (state h)\<lparr> s_lifecycle := L_canceled \<rparr> \<rparr>)"

definition resetForRun :: "string \<Rightarrow> hook \<Rightarrow> hook" where
  "resetForRun prompt h =
     h\<lparr> latestPromptRef := prompt,
        parserStateRef := [],
        state := INITIAL_STATE\<lparr> s_lifecycle := L_requesting, s_stage := S_queued \<rparr> \<rparr>"

text \<open>
  \<open>start\<close> runs in pieces, one between each two \<open>await\<close>s; other code of the page, and
  other runs, run in between. A piece of a run takes the run's own variables (its
  \<open>requestId\<close>, which also names its controller, and \<open>receivedDone\<close>) and the hook.

  The first piece: from the call up to the \<open>await fetch\<close>. Nothing happens for a prompt
  that trims to the empty string.
\<close>

definition start :: "string \<Rightarrow> hook \<Rightarrow> hook" where
  "start prompt h =
     (let trimmedPrompt = trim prompt
      in if trimmedPrompt = [] then h
         else
           let h1 = (case abortControllerRef h of
                       None \<Rightarrow> h
                     | Some controller \<Rightarrow>
                         h\<lparr> aborted := insert controller (aborted h),
                            abortControllerRef := None \<rparr>);
               h2 = resetForRun trimmedPrompt h1;
               requestId = requestIdRef h2 + 1
           in h2\<lparr> requestIdRef := requestId, abortControllerRef := Some requestId \<rparr>)"

text \<open>The \<open>finally\<close> block.\<close>

definition finallyBlock :: "nat \<Rightarrow> hook \<Rightarrow> hook" where
  "finallyBlock controller h =
     (if abortControllerRef h = Some controller then h\<lparr> abortControllerRef := None \<rparr> else h)"

text \<open>
  The \<open>catch\<close> block, for an error with the given message (empty for none), followed by
  the \<open>finally\<close> block.
\<close>

definition catchBlock :: "nat \<Rightarrow> string \<Rightarrow> hook \<Rightarrow> hook" where
  "catchBlock controller message h =
     finallyBlock controller
       (if controller \<in> aborted h
        then h\<lparr> state := (state h)\<lparr> s_lifecycle := L_canceled \<rparr> \<rparr>
        else h\<lparr> state := (state h)\<lparr> s_lifecycle := L_failed,
                  s_error := Some (if message = [] then ''An error occurred'' else message) \<rparr> \<rparr>)"

text \<open>
  Where a piece leaves its run: still going, with the run's \<open>receivedDone\<close>, or over
  (\<open>start\<close> has returned or thrown, and its \<open>finally\<close> block has run).
\<close>

datatype flow = Continue bool hook | Returned hook

text \<open>
  The piece after \<open>await fetch\<close> resolves. \<open>responseError\<close> is \<open>None\<close> for a response that
  is \<open>ok\<close> and has a body, and otherwise the message of the error the piece throws.
\<close>

definition fetchResolved :: "nat \<Rightarrow> string option \<Rightarrow> hook \<Rightarrow> flow" where
  "fetchResolved requestId responseError h =
     (if requestId \<noteq> requestIdRef h then Returned (finallyBlock requestId h)
      else
        case responseError of
          Some message \<Rightarrow> Returned (catchBlock requestId message h)
        | None \<Rightarrow>
            Continue False
              (h\<lparr> state := (state h)\<lparr> s_lifecycle := L_streaming, s_stage := S_queued \<rparr> \<rparr>))"

text \<open>The body of the loop over the frames of a chunk.\<close>

definition processFrame :: "(string \<Rightarrow> parse_result) \<Rightarrow> string \<Rightarrow> bool \<Rightarrow> hook \<Rightarrow> flow" where
  "processFrame parse frame receivedDone h =
     (if frame = ''[DONE]'' then Continue True h
      else
        case parse frame of
          ParseError \<Rightarrow>
            Continue receivedDone
              (h\<lparr> state := (state h)\<lparr> s_parseWarnings := s_parseWarnings (state h) + 1 \<rparr> \<rparr>)
        | JsonNull \<Rightarrow> Continue receivedDone h
        | JsonEvent parsedEvent \<Rightarrow>
            if ev_type parsedEvent = None then Continue receivedDone h
            else if ev_type parsedEvent = Some ''error'' then
              let errorMessage =
                    (case or_else (ev_message parsedEvent) (Some ''Generation failed unexpectedly'') of
                       None \<Rightarrow> [] | Some m \<Rightarrow> m);
                  h1 = h\<lparr> state := (state h)\<lparr> s_lifecycle := L_failed,
                             s_error := Some errorMessage \<rparr> \<rparr>;
                  h2 = appendMessage parsedEvent h1
              in Returned (h2\<lparr> abortControllerRef := None \<rparr>)
            else if ev_type parsedEvent = Some ''complete'' then
              Continue receivedDone
                (h\<lparr> state := (state h)\<lparr>
                     s_previewUrl := or_else (ev_previewUrl parsedEvent) (s_previewUrl (state h)),
                     s_sandboxId := or_else (ev_sandboxId parsedEvent) (s_sandboxId (state h)),
                     s_lifecycle := L_provisioning_preview,
                     s_stage := S_starting_preview \<rparr> \<rparr>)
            else
              let h1 =
                    (if ev_type parsedEvent = Some ''progress'' \<and> truthy (ev_message parsedEvent)
                     then h\<lparr> state := (state h)\<lparr>
                            s_lastProgress := or_else (ev_message parsedEvent) None,
                            s_stage := inferStageFromProgress
                                         (case ev_message parsedEvent of None \<Rightarrow> [] | Some m \<Rightarrow> m)
                                         (s_stage (state h)) \<rparr> \<rparr>
                     else h)
              in Continue receivedDone (appendMessage parsedEvent h1))"

fun processFrames :: "(string \<Rightarrow> parse_result) \<Rightarrow> string list \<Rightarrow> bool \<Rightarrow> hook \<Rightarrow> flow" where
  "processFrames parse [] receivedDone h = Continue receivedDone h"
| "processFrames parse (frame # frames) receivedDone h =
     (case processFrame parse frame receivedDone h of
        Returned h' \<Rightarrow> Returned h'
      | Continue receivedDone' h' \<Rightarrow> processFrames parse frames receivedDone' h')"

text \<open>
  The piece after \<open>await reader.read()\<close> resolves with a chunk. The parser state it feeds
  is the one \<open>parserStateRef\<close> holds at that moment.
\<close>

definition chunkRead :: "(string \<Rightarrow> parse_result) \<Rightarrow> nat \<Rightarrow> string \<Rightarrow> bool \<Rightarrow> hook \<Rightarrow> flow" where
  "chunkRead parse requestId chunkText receivedDone h =
     (let fed = consumeSseDataFrames (parserStateRef h) chunkText;
          h1 = h\<lparr> parserStateRef := snd fed \<rparr>
      in case processFrames parse (fst fed) receivedDone h1 of
           Returned h' \<Rightarrow> Returned (finallyBlock requestId h')
         | Continue receivedDone' h' \<Rightarrow> Continue receivedDone' h')"

text \<open>The body of the loop over the trailing frames, after the stream has closed.\<close>

definition processTrailingFrame ::
  "(string \<Rightarrow> parse_result) \<Rightarrow> string \<Rightarrow> bool \<Rightarrow> hook \<Rightarrow> flow" where
  "processTrailingFrame parse frame receivedDone h =
     (if frame = ''[DONE]'' then Continue True h
      else
        case parse frame of
          ParseError \<Rightarrow>
            Continue receivedDone
              (h\<lparr> state := (state h)\<lparr> s_parseWarnings := s_parseWarnings (state h) + 1 \<rparr> \<rparr>)
        | JsonNull \<Rightarrow>
            Continue receivedDone
              (h\<lparr> state := (state h)\<lparr> s_parseWarnings := s_parseWarnings (state h) + 1 \<rparr> \<rparr>)
        | JsonEvent parsedEvent \<Rightarrow>
            if ev_type parsedEvent = Some ''error'' then
              let h1 = h\<lparr> state := (state h)\<lparr> s_lifecycle := L_failed,
                             s_error := or_else (ev_message parsedEvent)
                                          (Some ''Generation failed unexpectedly'') \<rparr> \<rparr>;
                  h2 = appendMessage parsedEvent h1
              in Returned (h2\<lparr> abortControllerRef := None \<rparr>)
            else if ev_type parsedEvent = Some ''complete'' then
              Continue receivedDone
                (h\<lparr> state := (state h)\<lparr>
                     s_previewUrl := or_else (ev_previewUrl parsedEvent) (s_previewUrl (state h)),
                     s_sandboxId := or_else (ev_sandboxId parsedEvent) (s_sandboxId (state h)),
                     s_lifecycle := L_provisioning_preview,
                     s_stage := S_starting_preview \<rparr> \<rparr>)
            else Continue receivedDone (appendMessage parsedEvent h))"

fun processTrailingFrames ::
  "(string \<Rightarrow> parse_result) \<Rightarrow> string list \<Rightarrow> bool \<Rightarrow> hook \<Rightarrow> flow" where
  "processTrailingFrames parse [] receivedDone h = Continue receivedDone h"
| "processTrailingFrames parse (frame # frames) receivedDone h =
     (case processTrailingFrame parse frame receivedDone h of
        Returned h' \<Rightarrow> Returned h'
      | Continue receivedDone' h' \<Rightarrow> processTrailingFrames parse frames receivedDone' h')"

text \<open>The last \<open>setState\<close> of \<open>start\<close>, as a function of \<open>prev\<close>.\<close>

definition finalizeStream :: "bool \<Rightarrow> generation_session_state \<Rightarrow> generation_session_state" where
  "finalizeStream receivedDone prev =
     (if s_lifecycle prev = L_failed \<or> s_lifecycle prev = L_canceled then prev
      else
        let hasPreview = truthy (s_previewUrl prev)
        in prev\<lparr>
             s_lifecycle := (if hasPreview then L_ready else L_failed),
             s_stage := (if hasPreview then S_ready else s_stage prev),
             s_error :=
               (if hasPreview then s_error prev
                else or_else (s_error prev)
                       (Some (if receivedDone
                              then ''Generation finished but preview URL was not returned''
                              else ''Generation stream ended before preview was ready''))) \<rparr>)"

text \<open>
  The piece after \<open>await reader.read()\<close> resolves with \<open>done\<close>: first the trailing
  frames, where an \<open>error\<close> event makes \<open>start\<close> return; then the last \<open>setState\<close> and
  the \<open>finally\<close> block.
\<close>

definition flushTrailing :: "(string \<Rightarrow> parse_result) \<Rightarrow> nat \<Rightarrow> bool \<Rightarrow> hook \<Rightarrow> flow" where
  "flushTrailing parse requestId receivedDone h =
     (let flushed = flushSseDataFrames (parserStateRef h);
          h1 = h\<lparr> parserStateRef := snd flushed \<rparr>
      in case processTrailingFrames parse (fst flushed) receivedDone h1 of
           Returned h' \<Rightarrow> Returned (finallyBlock requestId h')
         | Continue receivedDone' h' \<Rightarrow> Continue receivedDone' h')"

definition streamClosed :: "(string \<Rightarrow> parse_result) \<Rightarrow> nat \<Rightarrow> bool \<Rightarrow> hook \<Rightarrow> hook" where
  "streamClosed parse requestId receivedDone h =
     (case flushTrailing parse requestId receivedDone h of
        Returned h' \<Rightarrow> h'
      | Continue receivedDone' h' \<Rightarrow>
          finallyBlock requestId (h'\<lparr> state := finalizeStream receivedDone' (state h') \<rparr>))"

text \<open>The piece after an \<open>await\<close> rejects: the \<open>catch\<close> and \<open>finally\<close> blocks.\<close>

definition awaitRejected :: "nat \<Rightarrow> string \<Rightarrow> hook \<Rightarrow> hook" where
  "awaitRejected requestId message h = catchBlock requestId message h"

text \<open>
  One run on its own: the response is \<open>ok\<close>, the chunks arrive, the stream closes, and
  nothing else touches the hook in between. \<open>runBeforeLastUpdate\<close> stops before the last
  \<open>setState\<close>; \<open>runStream\<close> is the whole run.
\<close>

fun readChunks ::
  "(string \<Rightarrow> parse_result) \<Rightarrow> nat \<Rightarrow> string list \<Rightarrow> bool \<Rightarrow> hook \<Rightarrow> flow" where
  "readChunks parse requestId [] receivedDone h = Continue receivedDone h"
| "readChunks parse requestId (chunk # chunks) receivedDone h =
     (case chunkRead parse requestId chunk receivedDone h of
        Returned h' \<Rightarrow> Returned h'
      | Continue receivedDone' h' \<Rightarrow> readChunks parse requestId chunks receivedDone' h')"

definition runBeforeLastUpdate ::
  "(string \<Rightarrow> parse_result) \<Rightarrow> string \<Rightarrow> string list \<Rightarrow> hook \<Rightarrow> flow" where
  "runBeforeLastUpdate parse prompt chunks h =
     (if trim prompt = [] then Returned h
      else
        let h1 = start prompt h;
            requestId = requestIdRef h1
        in case fetchResolved requestId None h1 of
             Returned h' \<Rightarrow> Returned h'
           | Continue receivedDone h2 \<Rightarrow>
               (case readChunks parse requestId chunks receivedDone h2 of
                  Returned h' \<Rightarrow> Returned h'
                | Continue receivedDone' h3 \<Rightarrow> flushTrailing parse requestId receivedDone' h3))"

definition runStream ::
  "(string \<Rightarrow> parse_result) \<Rightarrow> string \<Rightarrow> string list \<Rightarrow> hook \<Rightarrow> hook" where
  "runStream parse prompt chunks h =
     (if trim prompt = [] then h
      else
        let h1 = start prompt h;
            requestId = requestIdRef h1
        in case fetchResolved requestId None h1 of
             Returned h' \<Rightarrow> h'
           | Continue receivedDone h2 \<Rightarrow>
               (case readChunks parse requestId chunks receivedDone h2 of
                  Returned h' \<Rightarrow> h'
                | Continue receivedDone' h3 \<Rightarrow> streamClosed parse requestId receivedDone' h3))"

text \<open>No error is recorded and the lifecycle is neither \<open>failed\<close> nor \<open>canceled\<close>.\<close>

definition undecided :: "hook \<Rightarrow> bool" where
  "undecided h =
     (s_error (state h) = None \<and> s_lifecycle (state h) \<noteq> L_failed
      \<and> s_lifecycle (state h) \<noteq> L_canceled)"

text \<open>
  A parser for four frames, for running the hook on concrete streams; every other frame
  fails to parse.
\<close>

definition exampleParse :: "string \<Rightarrow> parse_result" where
  "exampleParse frame =
     (if frame = ''{type:progress,message:npm install}'' then
        JsonEvent \<lparr> ev_type = Some ''progress'', ev_message = Some ''npm install'',
                    ev_previewUrl = None, ev_sandboxId = None, ev_other = [] \<rparr>
      else if frame = ''{type:complete,previewUrl:https://p,sandboxId:sb1}'' then
        JsonEvent \<lparr> ev_type = Some ''complete'', ev_message = None,
                    ev_previewUrl = Some ''https://p'', ev_sandboxId = Some ''sb1'',
                    ev_other = [] \<rparr>
      else if frame = ''{type:complete}'' then
        JsonEvent \<lparr> ev_type = Some ''complete'', ev_message = None,
                    ev_previewUrl = None, ev_sandboxId = None, ev_other = [] \<rparr>
      else if frame = ''{type:error,message:boom}'' then
        JsonEvent \<lparr> ev_type = Some ''error'', ev_message = Some ''boom'',
                    ev_previewUrl = None, ev_sandboxId = None, ev_other = [] \<rparr>
      else ParseError)"

text \<open>
  A second call of \<open>start\<close> while the first run is reading its stream: the first run has
  request id 1, its fetch has resolved and it waits in \<open>reader.read()\<close>; the call of
  \<open>start\<close> for the second prompt aborts controller 1 and makes run 2.
\<close>

definition hookOf :: "flow \<Rightarrow> hook" where
  "hookOf f = (case f of Continue receivedDone h \<Rightarrow> h | Returned h \<Rightarrow> h)"

definition supersededScenario :: hook where
  "supersededScenario =
     start ''second prompt''
       (hookOf (fetchResolved 1 None (start ''first prompt'' initialHook)))"

section \<open>Diff identity\<close>

text \<open>
  Claim C9. For every path and every text \<open>x\<close>, the empty text included, the diff of \<open>x\<close>
  against itself reports no change, no added line and no removed line.
\<close>

theorem diff_identity:
  "changed (createUnifiedDiff filePath x x) = False
   \<and> additions (createUnifiedDiff filePath x x) = 0
   \<and> deletions (createUnifiedDiff filePath x x) = 0"
  by (simp add: createUnifiedDiff_def Let_def)


section \<open>The diff of texts that differ in line endings only\<close>




section \<open>The no-op filter and the batched apply\<close>

lemma changed_createUnifiedDiff:
  "changed (createUnifiedDiff filePath previousContent nextContent)
     = (previousContent \<noteq> nextContent)"
  by (simp add: createUnifiedDiff_def Let_def)

lemma changed_createDeletedFileDiff:
  "changed (createDeletedFileDiff filePath previousContent) = True"
  by (simp add: createDeletedFileDiff_def Let_def)

text \<open>One round of the preview loop, when the loop as a whole returns.\<close>

lemma previewLoop_Cons_Inr:
  assumes "previewLoop sb fs (e # es) = Inr (pvs, eff)"
  obtains pvs' eff' r where "readProjectFile sb fs (edit_path e) = Inr r"
    "previewLoop sb fs es = Inr (pvs', eff')"
    "eff = (if (case e of
                  DeleteEdit p \<Rightarrow> r \<noteq> None
                | ContentEdit p c \<Rightarrow> r \<noteq> Some c) then e # eff' else eff')"
proof -
  from assms obtain r where r: "readProjectFile sb fs (edit_path e) = Inr r"
    by (cases "readProjectFile sb fs (edit_path e)") auto
  from assms r obtain pvs' eff' where rest: "previewLoop sb fs es = Inr (pvs', eff')"
    by (cases "previewLoop sb fs es") (auto simp: Let_def split: if_splits)
  have "eff = (if (case e of
                  DeleteEdit p \<Rightarrow> r \<noteq> None
                | ContentEdit p c \<Rightarrow> r \<noteq> Some c) then e # eff' else eff')"
  proof (cases e)
    case (DeleteEdit p)
    with assms r rest show ?thesis
      by (cases r) (auto simp: Let_def changed_createDeletedFileDiff)
  next
    case (ContentEdit p c)
    with assms r rest show ?thesis
      by (cases r) (auto simp: Let_def changed_createUnifiedDiff)
  qed
  with r rest show thesis using that by blast
qed

text \<open>The survivors are the deletions of existing files and the contents that differ.\<close>

lemma previewLoop_effective:
  "previewLoop sb fs es = Inr (pvs, eff) \<Longrightarrow>
     eff = filter (\<lambda>e. case e of
                         DeleteEdit p \<Rightarrow> readProjectFile sb fs p \<noteq> Inr None
                       | ContentEdit p c \<Rightarrow> readProjectFile sb fs p \<noteq> Inr (Some c)) es"
proof (induction es arbitrary: pvs eff)
  case Nil
  then show ?case by simp
next
  case (Cons e es)
  from Cons.prems obtain pvs' eff' r where
    "readProjectFile sb fs (edit_path e) = Inr r"
    "previewLoop sb fs es = Inr (pvs', eff')"
    "eff = (if (case e of
                  DeleteEdit p \<Rightarrow> r \<noteq> None
                | ContentEdit p c \<Rightarrow> r \<noteq> Some c) then e # eff' else eff')"
    by (rule previewLoop_Cons_Inr)
  with Cons.IH show ?case by (cases e) simp_all
qed

lemma applyLoop_length:
  "length (fst (applyLoop sb fs es)) + length (fst (snd (applyLoop sb fs es))) = length es"
  by (induction es arbitrary: fs) (simp_all add: split_beta Let_def split: option.splits)

lemma applyLoop_paths:
  "set (fst (applyLoop sb fs es)) \<union> fst ` set (fst (snd (applyLoop sb fs es)))
     = edit_path ` set es"
  by (induction es arbitrary: fs) (auto simp: split_beta Let_def split: option.splits)

lemma applyLoop_applied_subseq:
  "subseq (fst (applyLoop sb fs es)) (map edit_path es)"
  by (induction es arbitrary: fs)
     (auto simp: split_beta Let_def split: option.splits intro: list_emb_Cons)

lemma applyLoop_failed_subseq:
  "subseq (map fst (fst (snd (applyLoop sb fs es)))) (map edit_path es)"
  by (induction es arbitrary: fs)
     (auto simp: split_beta Let_def split: option.splits intro: list_emb_Cons)



lemma show_nat_2: "show_nat 2 = ''2''"
  by code_simp


lemma show_nat_Suc2: "show_nat (Suc (Suc 0)) = ''2''"
  using show_nat_2 by (simp add: numeral_2_eq_2)

text \<open>
  Claim C5. In the loop that builds the effective edit set, an edit whose content equals
  the content read from the workspace is left out, a deletion of a file the workspace
  does not have is left out, and when nothing is left the route answers with an error
  response and leaves the workspace as it was (with the message
  \<open>No file changes detected from instruction\<close> and status 422 when the normalized edit
  set was not empty).
\<close>

theorem noop_edits_filtered:
  assumes "previewLoop sb fs normalizedEdits = Inr (previews, effectiveEdits)"
  shows "(\<forall>p c. readProjectFile sb fs p = Inr (Some c) \<longrightarrow> ContentEdit p c \<notin> set effectiveEdits)
     \<and> (\<forall>p. readProjectFile sb fs p = Inr None \<longrightarrow> DeleteEdit p \<notin> set effectiveEdits)
     \<and> (effectiveEdits = [] \<longrightarrow>
          (\<exists>message status.
             POST_edits sb fs mode summary notes contextFilePaths normalizedEdits
               = (JsonError message status, fs)))
     \<and> (effectiveEdits = [] \<and> normalizedEdits \<noteq> [] \<longrightarrow>
          POST_edits sb fs mode summary notes contextFilePaths normalizedEdits
            = (JsonError ''No file changes detected from instruction'' 422, fs))"
proof -
  note eff = previewLoop_effective[OF assms]
  have a: "\<forall>p c. readProjectFile sb fs p = Inr (Some c) \<longrightarrow> ContentEdit p c \<notin> set effectiveEdits"
    by (simp add: eff)
  have b: "\<forall>p. readProjectFile sb fs p = Inr None \<longrightarrow> DeleteEdit p \<notin> set effectiveEdits"
    by (simp add: eff)
  have d: "effectiveEdits = [] \<and> normalizedEdits \<noteq> [] \<longrightarrow>
          POST_edits sb fs mode summary notes contextFilePaths normalizedEdits
            = (JsonError ''No file changes detected from instruction'' 422, fs)"
    using assms by (simp add: POST_edits_def)
  have c: "effectiveEdits = [] \<longrightarrow>
          (\<exists>message status.
             POST_edits sb fs mode summary notes contextFilePaths normalizedEdits
               = (JsonError message status, fs))"
    using assms by (simp add: POST_edits_def)
  from a b c d show ?thesis by blast
qed

theorem noop_edits_filtered_witness:
  "POST_edits (memorySandbox []) [(''a.ts'', ''x'')] Apply [] [] []
       [DeleteEdit ''old.ts'', ContentEdit ''a.ts'' ''x'']
     = (JsonError ''No file changes detected from instruction'' 422, [(''a.ts'', ''x'')])"
proof -
  have "\<exists>pvs. previewLoop (memorySandbox []) [(''a.ts'', ''x'')]
          [DeleteEdit ''old.ts'', ContentEdit ''a.ts'' ''x''] = Inr (pvs, [])"
    by (simp add: memorySandbox_def Let_def changed_createUnifiedDiff)
  then obtain pvs where h: "previewLoop (memorySandbox []) [(''a.ts'', ''x'')]
          [DeleteEdit ''old.ts'', ContentEdit ''a.ts'' ''x''] = Inr (pvs, [])" ..
  from noop_edits_filtered[OF h, of Apply "[]" "[]" "[]"] show ?thesis by simp
qed

text \<open>
  The lists the apply loop returns, read off the outcomes of its calls: \<open>applied\<close> holds
  the paths whose call returned, \<open>failed\<close> those whose call threw, both in the order of
  the edits, and the workspace is the one the calls leave.
\<close>

lemma applyLoop_Cons_runEdit:
  "applyLoop sb fs (e # es) =
     (let r = runEdit sb fs e; rest = applyLoop sb (snd r) es
      in ((if fst r = None then [edit_path e] else []) @ fst rest,
          (if fst r = None then [] else [(edit_path e, failureReason (fst r))]) @ fst (snd rest),
          snd (snd rest)))"
  by (cases e) (auto simp: runEdit_def split_beta Let_def split: option.splits)

lemma applyLoop_workspace:
  "snd (snd (applyLoop sb fs es)) = workspaceAfter sb fs es"
proof (induction es arbitrary: fs)
  case Nil
  show ?case by (simp add: workspaceAfter_def)
next
  case (Cons e es)
  have "snd (snd (applyLoop sb fs (e # es))) = snd (snd (applyLoop sb (snd (runEdit sb fs e)) es))"
    by (simp only: applyLoop_Cons_runEdit Let_def snd_conv)
  also have "\<dots> = workspaceAfter sb (snd (runEdit sb fs e)) es" by (rule Cons.IH)
  also have "\<dots> = workspaceAfter sb fs (e # es)" by (simp add: workspaceAfter_def)
  finally show ?case .
qed

lemma applyLoop_append:
  "applyLoop sb fs (xs @ ys) =
     (fst (applyLoop sb fs xs) @ fst (applyLoop sb (workspaceAfter sb fs xs) ys),
      fst (snd (applyLoop sb fs xs)) @ fst (snd (applyLoop sb (workspaceAfter sb fs xs) ys)),
      workspaceAfter sb fs (xs @ ys))"
proof (induction xs arbitrary: fs)
  case Nil
  have "applyLoop sb fs ys
          = (fst (applyLoop sb fs ys), fst (snd (applyLoop sb fs ys)), snd (snd (applyLoop sb fs ys)))"
    by simp
  then show ?case using applyLoop_workspace[of sb fs ys] by (simp add: workspaceAfter_def)
next
  case (Cons e xs)
  have w: "workspaceAfter sb fs (e # zs) = workspaceAfter sb (snd (runEdit sb fs e)) zs" for zs
    by (simp add: workspaceAfter_def)
  show ?case
    unfolding append_Cons applyLoop_Cons_runEdit[of sb fs e] Let_def Cons.IH w
    by simp
qed


lemma outcomeAt_append:
  "i < length es \<Longrightarrow> outcomeAt sb fs (es @ ys) i = outcomeAt sb fs es i"
  by (simp add: outcomeAt_def nth_append)

lemma outcomeAt_last:
  "outcomeAt sb fs (es @ [e]) (length es) = fst (runEdit sb (workspaceAfter sb fs es) e)"
  by (simp add: outcomeAt_def)

lemma applyLoop_single:
  "applyLoop sb fs [e] =
     ((if fst (runEdit sb fs e) = None then [edit_path e] else []),
      (if fst (runEdit sb fs e) = None then [] else [(edit_path e, failureReason (fst (runEdit sb fs e)))]),
      snd (runEdit sb fs e))"
  unfolding applyLoop_Cons_runEdit Let_def by simp

lemma applied_by_outcome:
  "fst (applyLoop sb fs es)
     = map (\<lambda>i. edit_path (es ! i))
         (filter (\<lambda>i. outcomeAt sb fs es i = None) [0..<length es])"
proof (induction es rule: rev_induct)
  case Nil
  show ?case by simp
next
  case (snoc e es)
  have old: "map (\<lambda>i. edit_path ((es @ [e]) ! i))
         (filter (\<lambda>i. outcomeAt sb fs (es @ [e]) i = None) [0..<length es])
       = map (\<lambda>i. edit_path (es ! i))
         (filter (\<lambda>i. outcomeAt sb fs es i = None) [0..<length es])"
  proof -
    have f: "filter (\<lambda>i. outcomeAt sb fs (es @ [e]) i = None) [0..<length es]
           = filter (\<lambda>i. outcomeAt sb fs es i = None) [0..<length es]"
      by (rule filter_cong) (simp_all add: outcomeAt_append)
    show ?thesis unfolding f by (rule map_cong) (simp_all add: nth_append)
  qed
  show ?case
    by (simp add: applyLoop_append applyLoop_single old snoc.IH outcomeAt_last
          del: applyLoop.simps)
qed

lemma failed_by_outcome:
  "fst (snd (applyLoop sb fs es))
     = map (\<lambda>i. (edit_path (es ! i), failureReason (outcomeAt sb fs es i)))
         (filter (\<lambda>i. outcomeAt sb fs es i \<noteq> None) [0..<length es])"
proof (induction es rule: rev_induct)
  case Nil
  show ?case by simp
next
  case (snoc e es)
  have old: "map (\<lambda>i. (edit_path ((es @ [e]) ! i), failureReason (outcomeAt sb fs (es @ [e]) i)))
         (filter (\<lambda>i. outcomeAt sb fs (es @ [e]) i \<noteq> None) [0..<length es])
       = map (\<lambda>i. (edit_path (es ! i), failureReason (outcomeAt sb fs es i)))
         (filter (\<lambda>i. outcomeAt sb fs es i \<noteq> None) [0..<length es])"
  proof -
    have f: "filter (\<lambda>i. outcomeAt sb fs (es @ [e]) i \<noteq> None) [0..<length es]
           = filter (\<lambda>i. outcomeAt sb fs es i \<noteq> None) [0..<length es]"
      by (rule filter_cong) (simp_all add: outcomeAt_append)
    show ?thesis unfolding f by (rule map_cong) (simp_all add: nth_append outcomeAt_append)
  qed
  show ?case
    by (simp add: applyLoop_append applyLoop_single old snoc.IH outcomeAt_last
          del: applyLoop.simps not_None_eq)
qed

lemma applied_nonempty_iff:
  "fst (applyLoop sb fs es) \<noteq> [] \<longleftrightarrow> (\<exists>i < length es. outcomeAt sb fs es i = None)"
  by (auto simp: applied_by_outcome filter_empty_conv)







text \<open>
  Claim C4, as amended. The apply loop makes the call for every effective edit, in order,
  each on the workspace the earlier calls left, whatever those calls returned. A path is
  in \<open>applied\<close> exactly when its call returned and in \<open>failed\<close>, with the reason, exactly
  when its call threw. When at least one call returned the response carries both lists.
  When every call threw the response is the bare error \<open>No edits were applied\<close> with
  status 500, and the list of failures is not part of it.
\<close>

theorem apply_reports_partial_failures:
  assumes "previewLoop sb fs normalizedEdits = Inr (previews, effectiveEdits)"
    and "effectiveEdits \<noteq> []"
    and "applyLoop sb fs effectiveEdits = (applied, failed, fs')"
  shows "applied = map (\<lambda>i. edit_path (effectiveEdits ! i))
                     (filter (\<lambda>i. outcomeAt sb fs effectiveEdits i = None)
                        [0..<length effectiveEdits])
     \<and> failed = map (\<lambda>i. (edit_path (effectiveEdits ! i),
                            failureReason (outcomeAt sb fs effectiveEdits i)))
                    (filter (\<lambda>i. outcomeAt sb fs effectiveEdits i \<noteq> None)
                       [0..<length effectiveEdits])
     \<and> fs' = workspaceAfter sb fs effectiveEdits
     \<and> ((\<exists>i < length effectiveEdits. outcomeAt sb fs effectiveEdits i = None) \<longrightarrow>
          POST_edits sb fs Apply summary notes contextFilePaths normalizedEdits
            = (ApplyResponse
                 (if summary \<noteq> [] then summary
                  else ''Applied '' @ show_nat (length applied) @ '' file edit''
                       @ plural (length applied))
                 notes applied failed previews contextFilePaths, fs'))
     \<and> ((\<forall>i < length effectiveEdits. outcomeAt sb fs effectiveEdits i \<noteq> None) \<longrightarrow>
          POST_edits sb fs Apply summary notes contextFilePaths normalizedEdits
            = (JsonError ''No edits were applied'' 500, fs'))
     \<and> length applied + length failed = length effectiveEdits
     \<and> set applied \<union> fst ` set failed = edit_path ` set effectiveEdits
     \<and> subseq applied (map edit_path effectiveEdits)
     \<and> subseq (map fst failed) (map edit_path effectiveEdits)
     \<and> (applied \<noteq> [] \<longrightarrow>
          POST_edits sb fs Apply summary notes contextFilePaths normalizedEdits
            = (ApplyResponse
                 (if summary \<noteq> [] then summary
                  else ''Applied '' @ show_nat (length applied) @ '' file edit''
                       @ plural (length applied))
                 notes applied failed previews contextFilePaths, fs'))
     \<and> (applied = [] \<longrightarrow>
          POST_edits sb fs Apply summary notes contextFilePaths normalizedEdits
            = (JsonError ''No edits were applied'' 500, fs'))"
proof -
  have ne: "normalizedEdits \<noteq> []" using assms(1,2) by auto
  have o1: "applied = map (\<lambda>i. edit_path (effectiveEdits ! i))
                     (filter (\<lambda>i. outcomeAt sb fs effectiveEdits i = None)
                        [0..<length effectiveEdits])"
    using applied_by_outcome[of sb fs effectiveEdits] assms(3) by simp
  have o2: "failed = map (\<lambda>i. (edit_path (effectiveEdits ! i),
                            failureReason (outcomeAt sb fs effectiveEdits i)))
                    (filter (\<lambda>i. outcomeAt sb fs effectiveEdits i \<noteq> None)
                       [0..<length effectiveEdits])"
    using failed_by_outcome[of sb fs effectiveEdits] assms(3) by simp
  have o3: "fs' = workspaceAfter sb fs effectiveEdits"
    using applyLoop_workspace[of sb fs effectiveEdits] assms(3) by simp
  have nonempty: "applied \<noteq> [] \<longleftrightarrow> (\<exists>i < length effectiveEdits. outcomeAt sb fs effectiveEdits i = None)"
    using applied_nonempty_iff[of sb fs effectiveEdits] assms(3) by simp
  have a: "length applied + length failed = length effectiveEdits"
    using applyLoop_length[of sb fs effectiveEdits] assms(3) by simp
  have b: "set applied \<union> fst ` set failed = edit_path ` set effectiveEdits"
    using applyLoop_paths[of sb fs effectiveEdits] assms(3) by simp
  have c: "subseq applied (map edit_path effectiveEdits)"
    using applyLoop_applied_subseq[of sb fs effectiveEdits] assms(3) by simp
  have d: "subseq (map fst failed) (map edit_path effectiveEdits)"
    using applyLoop_failed_subseq[of sb fs effectiveEdits] assms(3) by simp
  have e: "applied \<noteq> [] \<longrightarrow>
          POST_edits sb fs Apply summary notes contextFilePaths normalizedEdits
            = (ApplyResponse
                 (if summary \<noteq> [] then summary
                  else ''Applied '' @ show_nat (length applied) @ '' file edit''
                       @ plural (length applied))
                 notes applied failed previews contextFilePaths, fs')"
    using assms ne by (simp add: POST_edits_def)
  have f: "applied = [] \<longrightarrow>
          POST_edits sb fs Apply summary notes contextFilePaths normalizedEdits
            = (JsonError ''No edits were applied'' 500, fs')"
    using assms ne by (simp add: POST_edits_def)
  have e': "(\<exists>i < length effectiveEdits. outcomeAt sb fs effectiveEdits i = None) \<longrightarrow>
          POST_edits sb fs Apply summary notes contextFilePaths normalizedEdits
            = (ApplyResponse
                 (if summary \<noteq> [] then summary
                  else ''Applied '' @ show_nat (length applied) @ '' file edit''
                       @ plural (length applied))
                 notes applied failed previews contextFilePaths, fs')"
    using e nonempty by blast
  have f': "(\<forall>i < length effectiveEdits. outcomeAt sb fs effectiveEdits i \<noteq> None) \<longrightarrow>
          POST_edits sb fs Apply summary notes contextFilePaths normalizedEdits
            = (JsonError ''No edits were applied'' 500, fs')"
    using f nonempty by blast
  show ?thesis
    by (intro conjI) (rule o1, rule o2, rule o3, rule e', rule f', rule a, rule b, rule c,
        rule d, rule e, rule f)
qed

theorem apply_reports_partial_failures_witness:
  "outcomeAt (memorySandbox [''b.ts'']) [(''c.ts'', ''old'')]
      [ContentEdit ''a.ts'' ''1'', ContentEdit ''b.ts'' ''2'', DeleteEdit ''c.ts''] 0 = None
   \<and> outcomeAt (memorySandbox [''b.ts'']) [(''c.ts'', ''old'')]
      [ContentEdit ''a.ts'' ''1'', ContentEdit ''b.ts'' ''2'', DeleteEdit ''c.ts''] 1
       = Some ''Failed to write b.ts''
   \<and> (\<exists>previews.
     POST_edits (memorySandbox [''b.ts'']) [(''c.ts'', ''old'')] Apply [] [] []
       [ContentEdit ''a.ts'' ''1'', ContentEdit ''b.ts'' ''2'', DeleteEdit ''c.ts'']
     = (ApplyResponse ''Applied 2 file edits'' [] [''a.ts'', ''c.ts'']
          [(''b.ts'', ''Failed to write b.ts'')] previews [],
        [(''a.ts'', ''1'')]))"
proof -
  let ?sb = "memorySandbox [''b.ts'']"
  let ?fs = "[(''c.ts'', ''old'')]"
  let ?es = "[ContentEdit ''a.ts'' ''1'', ContentEdit ''b.ts'' ''2'', DeleteEdit ''c.ts'']"
  have "\<exists>pvs. previewLoop ?sb ?fs ?es = Inr (pvs, ?es)"
    by (simp add: memorySandbox_def Let_def changed_createUnifiedDiff
          changed_createDeletedFileDiff)
  then obtain pvs where h: "previewLoop ?sb ?fs ?es = Inr (pvs, ?es)" ..
  have a: "applyLoop ?sb ?fs ?es
             = ([''a.ts'', ''c.ts''], [(''b.ts'', ''Failed to write b.ts'')], [(''a.ts'', ''1'')])"
    by (simp add: memorySandbox_def)
  have ne: "?es \<noteq> []" by simp
  have o0: "outcomeAt ?sb ?fs ?es 0 = None"
    by (simp add: outcomeAt_def workspaceAfter_def runEdit_def memorySandbox_def)
  have o1: "outcomeAt ?sb ?fs ?es 1 = Some ''Failed to write b.ts''"
    by (simp add: outcomeAt_def workspaceAfter_def runEdit_def memorySandbox_def)
  from o0 have some: "\<exists>i < length ?es. outcomeAt ?sb ?fs ?es i = None" by auto
  note t = apply_reports_partial_failures[OF h ne a, of "[]" "[]" "[]"]
  note t4 = t[THEN conjunct2, THEN conjunct2, THEN conjunct2, THEN conjunct1, rule_format,
      OF some]
  have r: "POST_edits ?sb ?fs Apply [] [] [] ?es
     = (ApplyResponse ''Applied 2 file edits'' [] [''a.ts'', ''c.ts'']
          [(''b.ts'', ''Failed to write b.ts'')] pvs [],
        [(''a.ts'', ''1'')])"
    using t4 by (simp add: show_nat_Suc2 plural_def)
  have ex: "\<exists>previews. POST_edits ?sb ?fs Apply [] [] [] ?es
     = (ApplyResponse ''Applied 2 file edits'' [] [''a.ts'', ''c.ts'']
          [(''b.ts'', ''Failed to write b.ts'')] previews [],
        [(''a.ts'', ''1'')])"
    by (rule exI) (rule r)
  show ?thesis by (intro conjI) (rule o0, rule o1, rule ex)
qed

text \<open>
  The claim as stated fails when every write fails: two edits, both rejected by the
  workspace, are answered by the bare error, with neither list.
\<close>

theorem apply_all_failed_counterexample:
  "POST_edits (memorySandbox [''a.ts'', ''b.ts'']) [(''a.ts'', ''old'')] Apply [] [] []
       [ContentEdit ''a.ts'' ''new'', ContentEdit ''b.ts'' ''2'']
     = (JsonError ''No edits were applied'' 500, [(''a.ts'', ''old'')])"
  by (simp add: POST_edits_def memorySandbox_def Let_def changed_createUnifiedDiff)




section \<open>Stage classification\<close>


lemma infer_fallback:
  "inferStageFromProgress message current =
     (if inferStageFromProgress message S_queued = S_queued then current
      else inferStageFromProgress message S_queued)"
  by (simp add: inferStageFromProgress_def Let_def)

text \<open>
  Claim C2, as amended. The classifier uses the current stage only as its fallback: a
  message holding none of the phrases leaves the stage as it is, and a message holding a
  phrase sets the stage of the first matching group, whatever the current stage. So the
  derived stage sequence is non-decreasing exactly when the stages of the phrase-bearing
  messages are non-decreasing and none lies below the starting stage.
\<close>

theorem stage_sequence_non_decreasing_iff:
  "(inferStageFromProgress message current =
     (if inferStageFromProgress message S_queued = S_queued then current
      else inferStageFromProgress message S_queued))
   \<and> (non_decreasing (current # stageSequence current messages)
   \<longleftrightarrow> non_decreasing (current #
         filter (\<lambda>s. s \<noteq> S_queued)
           (map (\<lambda>m. inferStageFromProgress m S_queued) messages)))"
proof -
  have "non_decreasing (current # stageSequence current messages)
   \<longleftrightarrow> non_decreasing (current #
         filter (\<lambda>s. s \<noteq> S_queued)
           (map (\<lambda>m. inferStageFromProgress m S_queued) messages))"
  proof (induction messages arbitrary: current)
    case Nil
    show ?case by simp
  next
    case (Cons m ms)
    show ?case
    proof (cases "inferStageFromProgress m S_queued = S_queued")
      case True
      then have "inferStageFromProgress m current = current"
        using infer_fallback[of m current] by simp
      with True Cons[of current] show ?thesis by (simp add: Let_def)
    next
      case False
      then have "inferStageFromProgress m current = inferStageFromProgress m S_queued"
        using infer_fallback[of m current] by simp
      with False Cons[of "inferStageFromProgress m S_queued"] show ?thesis
        by (simp add: Let_def)
    qed
  qed
  with infer_fallback[of message current] show ?thesis by blast
qed

theorem stage_sequence_non_decreasing_iff_witness:
  "non_decreasing (S_queued # stageSequence S_queued
      [''Creating new Daytona sandbox...'', ''hello'', ''Parsing generated code'',
       ''npm install'', ''Preview URL: x''])"
proof -
  let ?ms = "[''Creating new Daytona sandbox...'', ''hello'', ''Parsing generated code'',
       ''npm install'', ''Preview URL: x'']"
  have h: "non_decreasing (S_queued #
         filter (\<lambda>s. s \<noteq> S_queued)
           (map (\<lambda>m. inferStageFromProgress m S_queued) ?ms))"
    by code_simp
  note t = stage_sequence_non_decreasing_iff[where message = "[]" and current = S_queued
      and messages = ?ms, THEN conjunct2]
  from t h show ?thesis by (rule iffD2)
qed

text \<open>
  The claim as stated fails: from \<open>installing_deps\<close> a message that mentions
  \<open>writing\<close> goes back to \<open>generating_code\<close>, and a late \<open>Connected to sandbox\<close>
  goes back to \<open>creating_sandbox\<close>.
\<close>

theorem stage_regression_counterexample:
  "inferStageFromProgress ''npm install: Writing package-lock.json'' S_installing_deps
     = S_generating_code
   \<and> stage_index S_generating_code < stage_index S_installing_deps
   \<and> stageSequence S_queued [''Installing project dependencies...'', ''Connected to sandbox'']
     = [S_installing_deps, S_creating_sandbox]
   \<and> \<not> non_decreasing (S_queued # stageSequence S_queued
          [''Installing project dependencies...'', ''Connected to sandbox''])"
  by code_simp

section \<open>The checkpoint cap\<close>


lemma length_load: "length (loadSandboxCheckpoints st sandboxId) \<le> 8"
  by (simp add: loadSandboxCheckpoints_def MAX_CHECKPOINTS_def
           split: option.splits stored_item.splits)

lemma wellFormedEntries_map: "wellFormedEntries (map WellFormed cs) = cs"
  by (induction cs) simp_all

lemma checkpoints_createAll:
  "checkpoints (createAll sandboxId cstate creations)
     = (if creations = [] then checkpoints cstate
        else take 8 (rev (map snd creations) @ checkpoints cstate))"
proof (induction creations arbitrary: cstate rule: rev_induct)
  case Nil
  show ?case by (simp add: createAll_def)
next
  case (snoc c cs)
  show ?case
  proof (cases "cs = []")
    case True
    then show ?thesis by (simp add: createAll_def createCheckpointSnapshot_def Let_def)
  next
    case False
    have "checkpoints (createAll sandboxId cstate (cs @ [c]))
        = take 8 (snd c # checkpoints (createAll sandboxId cstate cs))"
      by (simp add: createAll_def createCheckpointSnapshot_def Let_def)
    also have "\<dots> = take 8 (snd c # take 8 (rev (map snd cs) @ checkpoints cstate))"
      using snoc[of cstate] False by simp
    also have "\<dots> = take 8 (snd c # (rev (map snd cs) @ checkpoints cstate))"
      by (simp add: take_Cons' min_def)
    finally show ?thesis by simp
  qed
qed

lemma storage_createAll_last:
  assumes "creations \<noteq> []" "fst (last creations)" "storage cstate = Some items" "sandboxId \<noteq> []"
  shows "loadSandboxCheckpoints (storage (createAll sandboxId cstate creations)) sandboxId
          = checkpoints (createAll sandboxId cstate creations)"
proof -
  from assms(1) obtain cs c where cc: "creations = cs @ [c]"
    by (cases creations rule: rev_cases) auto
  have some: "\<exists>items'. storage (createAll sandboxId cstate xs) = Some items'" for xs
    by (induction xs rule: rev_induct)
       (auto simp: createAll_def createCheckpointSnapshot_def Let_def persistSandboxCheckpoints_def assms(3))
  then obtain items' where i: "storage (createAll sandboxId cstate cs) = Some items'" by blast
  from assms(2) cc have ok: "fst c" by simp
  show ?thesis
    unfolding cc
    by (simp add: createAll_def[of _ _ "cs @ [c]"] createAll_def[symmetric, of sandboxId cstate cs]
          createCheckpointSnapshot_def Let_def
          persistSandboxCheckpoints_def i ok assms(4) loadSandboxCheckpoints_def
          wellFormedEntries_map MAX_CHECKPOINTS_def)
qed

text \<open>
  Claim C8. Start from the list loaded for a sandbox id and create checkpoints one after
  the other. The list in the page's state never has more than 8 entries; it is the first
  8 of the creations, newest first, followed by what was loaded; after more than 8
  creations it is exactly the 8 newest, newest first, so the oldest are the ones evicted;
  when the last write to the storage went through, loading gives the same list back; and
  a load never returns more than 8 entries, whatever the storage holds.
\<close>

theorem checkpoint_cap:
  "length (checkpoints (createAll sandboxId (initialCheckpointState st sandboxId) creations)) \<le> 8
   \<and> checkpoints (createAll sandboxId (initialCheckpointState st sandboxId) creations)
       = take 8 (rev (map snd creations) @ loadSandboxCheckpoints st sandboxId)
   \<and> (8 < length creations \<longrightarrow>
        checkpoints (createAll sandboxId (initialCheckpointState st sandboxId) creations)
          = rev (map snd (drop (length creations - 8) creations))
        \<and> length (checkpoints (createAll sandboxId (initialCheckpointState st sandboxId) creations)) = 8)
   \<and> (creations \<noteq> [] \<and> fst (last creations) \<and> st \<noteq> None \<and> sandboxId \<noteq> [] \<longrightarrow>
        loadSandboxCheckpoints
          (storage (createAll sandboxId (initialCheckpointState st sandboxId) creations)) sandboxId
        = checkpoints (createAll sandboxId (initialCheckpointState st sandboxId) creations))
   \<and> length (loadSandboxCheckpoints anyStorage anyId) \<le> 8"
proof -
  let ?s0 = "initialCheckpointState st sandboxId"
  let ?final = "createAll sandboxId ?s0 creations"
  have l0: "length (loadSandboxCheckpoints st sandboxId) \<le> 8" by (rule length_load)
  have c0: "checkpoints ?s0 = loadSandboxCheckpoints st sandboxId"
    by (simp add: initialCheckpointState_def)
  have b: "checkpoints ?final = take 8 (rev (map snd creations) @ loadSandboxCheckpoints st sandboxId)"
    using l0 by (simp add: checkpoints_createAll c0)
  have a: "length (checkpoints ?final) \<le> 8" by (simp add: b)
  have c: "checkpoints ?final = rev (map snd (drop (length creations - 8) creations))
        \<and> length (checkpoints ?final) = 8" if "8 < length creations"
    using that by (simp add: b take_rev drop_map)
  have d: "loadSandboxCheckpoints (storage ?final) sandboxId = checkpoints ?final"
    if "creations \<noteq> [] \<and> fst (last creations) \<and> st \<noteq> None \<and> sandboxId \<noteq> []"
  proof -
    from that obtain items where "st = Some items" by auto
    then have "storage ?s0 = Some items" by (simp add: initialCheckpointState_def)
    with that show ?thesis by (intro storage_createAll_last) simp_all
  qed
  from a b c d length_load[of anyStorage anyId] show ?thesis by blast
qed

theorem checkpoint_cap_witness:
  "checkpoints (createAll ''sb'' (initialCheckpointState (Some Map.empty) ''sb'')
      [(True, exampleCheckpoint 1), (True, exampleCheckpoint 2), (True, exampleCheckpoint 3),
       (True, exampleCheckpoint 4), (True, exampleCheckpoint 5), (True, exampleCheckpoint 6),
       (True, exampleCheckpoint 7), (True, exampleCheckpoint 8), (False, exampleCheckpoint 9)])
   = [exampleCheckpoint 9, exampleCheckpoint 8, exampleCheckpoint 7, exampleCheckpoint 6,
      exampleCheckpoint 5, exampleCheckpoint 4, exampleCheckpoint 3, exampleCheckpoint 2]"
proof -
  let ?cs = "[(True, exampleCheckpoint 1), (True, exampleCheckpoint 2), (True, exampleCheckpoint 3),
       (True, exampleCheckpoint 4), (True, exampleCheckpoint 5), (True, exampleCheckpoint 6),
       (True, exampleCheckpoint 7), (True, exampleCheckpoint 8), (False, exampleCheckpoint 9)]"
  have len: "8 < length ?cs" by simp
  note t = checkpoint_cap[of "''sb''" "Some Map.empty" ?cs, THEN conjunct2, THEN conjunct2,
      THEN conjunct1, rule_format, OF len, THEN conjunct1]
  then show ?thesis by simp
qed

section \<open>Frame decoding and chunk boundaries\<close>


lemma normalizeChunk_append:
  "a = [] \<or> last a \<noteq> CR \<Longrightarrow> normalizeChunk (a @ b) = normalizeChunk a @ normalizeChunk b"
proof (induction a rule: normalizeChunk.induct)
  case 1
  show ?case by simp
next
  case (2 c)
  then have "c \<noteq> CR" by simp
  then show ?case by (cases b) simp_all
next
  case (3 c d cs)
  show ?case
  proof (cases "c = CR \<and> d = LF")
    case True
    with 3 show ?thesis by (cases cs) (auto split: if_splits)
  next
    case False
    with 3 show ?thesis by (auto split: if_splits)
  qed
qed

lemma prefix_append_long:
  "length t \<le> length s \<Longrightarrow> prefix t (s @ u) = prefix t s"
  by (metis prefix_order.dual_order.refl prefix_append prefix_length_prefix prefixI prefix_order.trans append_prefixD)

lemma index_of_append:
  "index_of s t = Some i \<Longrightarrow> index_of (s @ u) t = Some i"
proof (induction s arbitrary: i)
  case Nil
  then show ?case by (cases u) (simp_all split: if_splits)
next
  case (Cons c cs)
  from index_of_bound[OF Cons.prems] have len: "length t \<le> length (c # cs)" by simp
  show ?case
  proof (cases "prefix t (c # cs)")
    case True
    with Cons.prems show ?thesis using prefix_prefix[of t "c # cs" u] by simp
  next
    case False
    with Cons.prems obtain j where j: "index_of cs t = Some j" "i = Suc j" by auto
    from False len have "\<not> prefix t ((c # cs) @ u)"
      using prefix_append_long[of t "c # cs" u] by simp
    with j Cons.IH[of j] show ?thesis by simp
  qed
qed

lemma extractFrames_append:
  "extractFrames (b @ c) =
     (fst (extractFrames b) @ fst (extractFrames (snd (extractFrames b) @ c)),
      snd (extractFrames (snd (extractFrames b) @ c)))"
proof (induction b rule: extractFrames.induct)
  case (1 buffer)
  show ?case
  proof (cases "index_of buffer [LF, LF]")
    case None
    then show ?thesis by (simp add: extractFrames.simps[of buffer])
  next
    case (Some i)
    from index_of_bound[OF Some] have len: "i + 2 \<le> length buffer" by simp
    have app: "index_of (buffer @ c) [LF, LF] = Some i" by (rule index_of_append[OF Some])
    let ?rest = "drop (Suc (Suc i)) buffer"
    have IH: "extractFrames (?rest @ c) =
       (fst (extractFrames ?rest) @ fst (extractFrames (snd (extractFrames ?rest) @ c)),
        snd (extractFrames (snd (extractFrames ?rest) @ c)))"
      using 1[OF Some refl refl] by simp
    have whole: "extractFrames (buffer @ c) =
       ((if dataLinesOf (take i buffer) \<noteq> [] then [join_with [LF] (dataLinesOf (take i buffer))]
         else []) @ fst (extractFrames (?rest @ c)),
        snd (extractFrames (?rest @ c)))"
      using len by (subst extractFrames.simps) (simp add: app Let_def)
    have part: "extractFrames buffer =
       ((if dataLinesOf (take i buffer) \<noteq> [] then [join_with [LF] (dataLinesOf (take i buffer))]
         else []) @ fst (extractFrames ?rest),
        snd (extractFrames ?rest))"
      by (subst extractFrames.simps) (simp add: Some Let_def)
    show ?thesis
      unfolding whole part by (simp add: IH)
  qed
qed


lemma extractFrames_rest_settled:
  "index_of (snd (extractFrames b)) [LF, LF] = None"
proof (induction b rule: extractFrames.induct)
  case (1 buffer)
  show ?case
  proof (cases "index_of buffer [LF, LF]")
    case None
    then show ?thesis by (simp add: extractFrames.simps[of buffer])
  next
    case (Some i)
    with 1[OF Some refl refl] show ?thesis
      by (subst extractFrames.simps) (simp add: Let_def)
  qed
qed

lemma extractFrames_settled:
  "index_of b [LF, LF] = None \<Longrightarrow> extractFrames b = ([], b)"
  by (simp add: extractFrames.simps[of b])

lemma feedChunks_whole:
  assumes "index_of b [LF, LF] = None"
    and "\<forall>c \<in> set chunks. c = [] \<or> last c \<noteq> CR"
  shows "feedChunks b chunks = extractFrames (b @ normalizeChunk (concat chunks))"
  using assms
proof (induction chunks arbitrary: b)
  case Nil
  then show ?case by (simp add: extractFrames_settled)
next
  case (Cons c cs)
  let ?fed = "extractFrames (b @ normalizeChunk c)"
  have settled: "index_of (snd ?fed) [LF, LF] = None" by (rule extractFrames_rest_settled)
  have rest: "feedChunks (snd ?fed) cs = extractFrames (snd ?fed @ normalizeChunk (concat cs))"
    using Cons.IH[OF settled] Cons.prems(2) by simp
  have norm: "normalizeChunk (c @ concat cs) = normalizeChunk c @ normalizeChunk (concat cs)"
    using Cons.prems(2) by (intro normalizeChunk_append) simp
  have "extractFrames ((b @ normalizeChunk c) @ normalizeChunk (concat cs)) =
     (fst ?fed @ fst (extractFrames (snd ?fed @ normalizeChunk (concat cs))),
      snd (extractFrames (snd ?fed @ normalizeChunk (concat cs))))"
    by (rule extractFrames_append)
  then show ?case
    by (simp add: consumeSseDataFrames_def Let_def rest norm)
qed

text \<open>
  Where no chunk ends in a carriage return, so that no CR LF pair is cut by a chunk
  boundary, the frames do not depend on how the stream is cut into chunks.
\<close>

lemma decodeStream_chunking:
  assumes "\<forall>c \<in> set chunks. c = [] \<or> last c \<noteq> CR"
  shows "decodeStream chunks = decodeStream [concat chunks]"
proof -
  have e: "index_of [] [LF, LF] = None" by simp
  have one: "feedChunks [] [concat chunks] = extractFrames (normalizeChunk (concat chunks))"
    by (simp add: consumeSseDataFrames_def Let_def)
  have many: "feedChunks [] chunks = extractFrames (normalizeChunk (concat chunks))"
    using feedChunks_whole[OF e assms] by simp
  show ?thesis by (simp only: decodeStream_def one many)
qed

text \<open>
  Claim C3. The claim asks for the same frames however the stream is cut into chunks,
  also when a CR LF pair is cut. The decoder replaces CR LF inside each chunk before it
  appends the chunk to the buffer, so a pair cut by a chunk boundary stays in the buffer
  as it is. The stream of two events below, with CR LF line endings, decodes to the two
  frames \<open>a\<close> and \<open>b\<close> as one chunk; cut between the CR and the LF of the
  blank line it decodes to the single frame \<open>a LF b\<close>. Cut after the first CR, a
  one-event stream gives the frame \<open>a CR\<close> in place of \<open>a\<close>.
\<close>

theorem split_crlf_merges_frames:
  "concat [''data: a'' @ [CR, LF, CR], [LF] @ ''data: b'' @ [CR, LF, CR, LF]]
     = ''data: a'' @ [CR, LF, CR, LF] @ ''data: b'' @ [CR, LF, CR, LF]
   \<and> decodeStream [''data: a'' @ [CR, LF, CR, LF] @ ''data: b'' @ [CR, LF, CR, LF]]
     = [''a'', ''b'']
   \<and> decodeStream [''data: a'' @ [CR, LF, CR], [LF] @ ''data: b'' @ [CR, LF, CR, LF]]
     = [''a'' @ [LF] @ ''b'']
   \<and> decodeStream [''data: a'' @ [CR], [LF, CR, LF]] = [''a'' @ [CR]]
   \<and> decodeStream [''data: a'' @ [CR, LF, CR, LF]] = [''a'']"
  by code_simp

section \<open>Safety of the edit proposal normalizer\<close>


lemma split_on_nonempty: "split_on sep s \<noteq> []"
  by (induction s) (auto split: list.splits)

lemma split_on_no_sep: "sep \<notin> set s \<Longrightarrow> split_on sep s = [s]"
  by (induction s) (auto split: list.splits)

lemma split_on_append_sep:
  "split_on sep (a @ sep # b) = split_on sep a @ split_on sep b"
proof (induction a)
  case Nil
  show ?case by simp
next
  case (Cons c a)
  then show ?case
    using split_on_nonempty[of sep a] by (cases "split_on sep a") auto
qed

lemma split_on_segments:
  "seg \<in> set (split_on sep s) \<Longrightarrow> sep \<notin> set seg \<and> set seg \<subseteq> set s"
proof (induction s arbitrary: seg)
  case Nil
  then show ?case by simp
next
  case (Cons c s)
  show ?case
  proof (cases "c = sep")
    case True
    with Cons show ?thesis by auto
  next
    case False
    obtain l ls where l: "split_on sep s = l # ls"
      using split_on_nonempty[of sep s] by (cases "split_on sep s") auto
    with False Cons.prems have "seg = c # l \<or> seg \<in> set ls" by simp
    then show ?thesis
    proof
      assume "seg = c # l"
      moreover have "sep \<notin> set l \<and> set l \<subseteq> set s" using Cons.IH[of l] l by simp
      ultimately show ?thesis using False by auto
    next
      assume "seg \<in> set ls"
      then have "sep \<notin> set seg \<and> set seg \<subseteq> set s" using Cons.IH[of seg] l by simp
      then show ?thesis by auto
    qed
  qed
qed

lemma split_on_join:
  "segs \<noteq> [] \<Longrightarrow> \<forall>seg \<in> set segs. sep \<notin> set seg \<Longrightarrow>
     split_on sep (join_with [sep] segs) = segs"
proof (induction "[sep]" segs rule: join_with.induct)
  case (1)
  then show ?case by simp
next
  case (2 x)
  then show ?case by (simp add: split_on_no_sep)
next
  case (3 x y ys)
  then show ?case by (simp add: split_on_append_sep split_on_no_sep)
qed

lemma split_on_snoc_sep: "split_on sep (s @ [sep]) = split_on sep s @ [[]]"
  using split_on_append_sep[of sep s "[]"] by simp

lemma set_trim: "set (trim s) \<subseteq> set s"
proof -
  have "set (trim s) = set (dropWhile is_space (rev (dropWhile is_space s)))"
    by (simp add: trim_def)
  also have "\<dots> \<subseteq> set (rev (dropWhile is_space s))" by (auto dest: set_dropWhileD)
  also have "\<dots> \<subseteq> set s" by (auto dest: set_dropWhileD)
  finally show ?thesis .
qed


lemma set_join_with:
  "set (join_with sep segs) \<subseteq> \<Union>(set ` set segs) \<union> set sep"
  by (induction sep segs rule: join_with.induct) auto

lemma join_with_Cons:
  "join_with sep (x # xs) = x @ (if xs = [] then [] else sep @ join_with sep xs)"
  by (cases xs) simp_all

lemma normalizeString_inv:
  assumes "\<forall>s \<in> set res. s \<noteq> [] \<and> s \<noteq> ''.'' \<and> CHR ''/'' \<notin> set s \<and> set s \<subseteq> A"
    and "''..'' \<in> set res \<longrightarrow> hd res = ''..''"
    and "\<forall>s \<in> set segs. CHR ''/'' \<notin> set s \<and> set s \<subseteq> A"
  shows "(\<forall>s \<in> set (normalizeString True res segs).
            s \<noteq> [] \<and> s \<noteq> ''.'' \<and> CHR ''/'' \<notin> set s \<and> set s \<subseteq> A)
       \<and> (''..'' \<in> set (normalizeString True res segs)
            \<longrightarrow> hd (normalizeString True res segs) = ''..'')"
  using assms
proof (induction segs arbitrary: res)
  case Nil
  then show ?case by simp
next
  case (Cons seg segs)
  have segs: "\<forall>s \<in> set segs. CHR ''/'' \<notin> set s \<and> set s \<subseteq> A"
    using Cons.prems(3) by simp
  have seg: "CHR ''/'' \<notin> set seg \<and> set seg \<subseteq> A" using Cons.prems(3) by simp
  consider (skip) "seg = [] \<or> seg = ''.''"
    | (pop) "seg = ''..''" "res \<noteq> []" "last res \<noteq> ''..''"
    | (up) "seg = ''..''" "res = [] \<or> last res = ''..''"
    | (push) "seg \<noteq> []" "seg \<noteq> ''.''" "seg \<noteq> ''..''"
    by blast
  then show ?case
  proof cases
    case skip
    then have "normalizeString True res (seg # segs) = normalizeString True res segs" by auto
    with Cons.IH[OF Cons.prems(1,2) segs] show ?thesis by simp
  next
    case pop
    then have e: "normalizeString True res (seg # segs) = normalizeString True (butlast res) segs"
      by simp
    have a: "\<forall>s \<in> set (butlast res). s \<noteq> [] \<and> s \<noteq> ''.'' \<and> CHR ''/'' \<notin> set s \<and> set s \<subseteq> A"
      using Cons.prems(1) by (auto dest: in_set_butlastD)
    have b: "''..'' \<in> set (butlast res) \<longrightarrow> hd (butlast res) = ''..''"
    proof
      assume m: "''..'' \<in> set (butlast res)"
      then have "''..'' \<in> set res" by (rule in_set_butlastD)
      with Cons.prems(2) have "hd res = ''..''" by simp
      moreover from m have "butlast res \<noteq> []" by auto
      then have "hd (butlast res) = hd res" by (cases res) (auto split: if_splits)
      ultimately show "hd (butlast res) = ''..''" by simp
    qed
    from Cons.IH[OF a b segs] e show ?thesis by simp
  next
    case up
    then have e: "normalizeString True res (seg # segs) = normalizeString True (res @ [''..'']) segs"
      by auto
    have a: "\<forall>s \<in> set (res @ [''..'']). s \<noteq> [] \<and> s \<noteq> ''.'' \<and> CHR ''/'' \<notin> set s \<and> set s \<subseteq> A"
      using Cons.prems(1) seg up(1) by auto
    have b: "''..'' \<in> set (res @ [''..'']) \<longrightarrow> hd (res @ [''..'']) = ''..''"
    proof (cases "res = []")
      case True
      then show ?thesis by simp
    next
      case False
      with up(2) have "last res = ''..''" by simp
      with False have "''..'' \<in> set res" using last_in_set[of res] by simp
      with Cons.prems(2) False show ?thesis by simp
    qed
    from Cons.IH[OF a b segs] e show ?thesis by simp
  next
    case push
    then have e: "normalizeString True res (seg # segs) = normalizeString True (res @ [seg]) segs"
      by simp
    have a: "\<forall>s \<in> set (res @ [seg]). s \<noteq> [] \<and> s \<noteq> ''.'' \<and> CHR ''/'' \<notin> set s \<and> set s \<subseteq> A"
      using Cons.prems(1) seg push by auto
    have b: "''..'' \<in> set (res @ [seg]) \<longrightarrow> hd (res @ [seg]) = ''..''"
      using Cons.prems(2) push(3) by (cases res) auto
    from Cons.IH[OF a b segs] e show ?thesis by simp
  qed
qed


lemma posix_normalize_relative:
  assumes "ni \<noteq> []" and "hd ni \<noteq> CHR ''/''"
  obtains (dot) "posix_normalize ni = ''.'' \<or> posix_normalize ni = ''./''"
    | (segments) s1 rest trail where
        "posix_normalize ni = join_with ''/'' (s1 # rest) @ trail"
        "trail = [] \<or> trail = ''/''"
        "\<forall>s \<in> set (s1 # rest). s \<noteq> [] \<and> s \<noteq> ''.'' \<and> CHR ''/'' \<notin> set s \<and> set s \<subseteq> set ni"
        "''..'' \<in> set (s1 # rest) \<longrightarrow> s1 = ''..''"
proof -
  let ?out = "normalizeString True [] (split_on CHR ''/'' ni)"
  have segs: "\<forall>s \<in> set (split_on CHR ''/'' ni). CHR ''/'' \<notin> set s \<and> set s \<subseteq> set ni"
    using split_on_segments[of _ "CHR ''/''" ni] by blast
  have inv: "(\<forall>s \<in> set ?out. s \<noteq> [] \<and> s \<noteq> ''.'' \<and> CHR ''/'' \<notin> set s \<and> set s \<subseteq> set ni)
       \<and> (''..'' \<in> set ?out \<longrightarrow> hd ?out = ''..'')"
    by (rule normalizeString_inv) (use segs in simp_all)
  show thesis
  proof (cases ?out)
    case Nil
    with assms have "posix_normalize ni = ''.'' \<or> posix_normalize ni = ''./''"
      by (simp add: posix_normalize_def Let_def)
    then show thesis by (rule dot)
  next
    case (Cons s1 rest)
    with inv have s1: "s1 \<noteq> []" by simp
    then have ne: "join_with ''/'' (s1 # rest) \<noteq> []" by (simp add: join_with_Cons)
    let ?trail = "if last ni = CHR ''/'' then ''/'' else []"
    have "posix_normalize ni = join_with ''/'' (s1 # rest) @ ?trail"
      using assms ne Cons by (simp add: posix_normalize_def Let_def)
    moreover have "?trail = [] \<or> ?trail = ''/''" by simp
    moreover have "\<forall>s \<in> set (s1 # rest). s \<noteq> [] \<and> s \<noteq> ''.'' \<and> CHR ''/'' \<notin> set s \<and> set s \<subseteq> set ni"
      using inv Cons by simp
    moreover have "''..'' \<in> set (s1 # rest) \<longrightarrow> s1 = ''..''"
      using inv Cons by simp
    ultimately show thesis by (rule segments)
  qed
qed

lemma joined_shape:
  assumes "trail = [] \<or> trail = ''/''"
  obtains t where "join_with ''/'' (s1 # rest) @ trail = s1 @ t" "t = [] \<or> hd t = CHR ''/''"
proof -
  let ?t = "(if rest = [] then [] else ''/'' @ join_with ''/'' rest) @ trail"
  have "join_with ''/'' (s1 # rest) @ trail = s1 @ ?t" by (simp add: join_with_Cons)
  moreover have "?t = [] \<or> hd ?t = CHR ''/''" using assms by auto
  ultimately show thesis by (rule that)
qed

lemma dot_slash_prefix:
  assumes "prefix ''./'' (s1 @ t)" "s1 \<noteq> []" "CHR ''/'' \<notin> set s1" "t = [] \<or> hd t = CHR ''/''"
  shows "s1 = ''.''"
proof (cases s1)
  case Nil
  with assms show ?thesis by simp
next
  case (Cons c cs)
  with assms(1) have c: "c = CHR ''.''" by simp
  show ?thesis
  proof (cases cs)
    case Nil
    with Cons c show ?thesis by simp
  next
    case (Cons d ds)
    with assms(1) \<open>s1 = c # cs\<close> have "d = CHR ''/''" by simp
    with Cons \<open>s1 = c # cs\<close> assms(3) show ?thesis by simp
  qed
qed

lemma dotdot_first:
  assumes "t = [] \<or> hd t = CHR ''/''"
  shows "''..'' @ t = ''..'' \<or> prefix ''../'' (''..'' @ t)"
  using assms by (cases t) auto


lemma normalizeRelativeSandboxPath_safe:
  assumes nr: "normalizeRelativeSandboxPath raw = Inr p" and p: "p \<noteq> []"
  shows "safe_path p"
proof -
  let ?ni = "trim (map (\<lambda>c. if c = CHR 0x5C then CHR ''/'' else c) raw)"
  from nr have nonul: "CHR 0x00 \<notin> set raw"
    by (auto simp: normalizeRelativeSandboxPath_def split: if_splits)
  have ni: "?ni \<noteq> []"
    using nr p nonul by (auto simp: normalizeRelativeSandboxPath_def Let_def split: if_splits)
  have rel: "hd ?ni \<noteq> CHR ''/''"
    using nr nonul ni
    by (cases ?ni) (auto simp: normalizeRelativeSandboxPath_def Let_def startsWith_def split: if_splits)
  have nul_ni: "CHR 0x00 \<notin> set ?ni"
    using set_trim[of "map (\<lambda>c. if c = CHR 0x5C then CHR ''/'' else c) raw"] nonul by auto
  let ?r = "posix_normalize ?ni"
  have body: "\<not> (stripDotSlash ?r = ''..'' \<or> startsWith (stripDotSlash ?r) ''../'')"
    and res: "p = (if stripDotSlash ?r = ''.'' then [] else stripDotSlash ?r)"
    using nr nonul ni rel
    by (auto simp: normalizeRelativeSandboxPath_def Let_def startsWith_def split: if_splits)
  from ni rel show ?thesis
  proof (cases rule: posix_normalize_relative)
    case dot
    then have "stripDotSlash ?r = ''.'' \<or> stripDotSlash ?r = []"
      by (auto simp: stripDotSlash_def)
    with res p show ?thesis by auto
  next
    case (segments s1 rest trail)
    from segments(3) have s1: "s1 \<noteq> []" "s1 \<noteq> ''.''" "CHR ''/'' \<notin> set s1" by simp_all
    from segments(2) obtain t where t: "join_with ''/'' (s1 # rest) @ trail = s1 @ t"
      "t = [] \<or> hd t = CHR ''/''" by (rule joined_shape)
    have r: "?r = s1 @ t" using segments(1) t(1) by simp
    have "\<not> prefix ''./'' ?r"
      using dot_slash_prefix[of s1 t] s1 t(2) r by auto
    then have strip: "stripDotSlash ?r = ?r" by (simp add: stripDotSlash_def)
    with res p have pr: "p = ?r" by (auto split: if_splits)
    have nodd: "''..'' \<notin> set (s1 # rest)"
    proof
      assume "''..'' \<in> set (s1 # rest)"
      with segments(4) have "s1 = ''..''" by blast
      with r have "?r = ''..'' \<or> prefix ''../'' ?r"
        using dotdot_first[OF t(2)] by simp
      with body strip show False by (simp add: startsWith_def)
    qed
    have nosep: "\<forall>s \<in> set (s1 # rest). CHR ''/'' \<notin> set s" using segments(3) by simp
    have split0: "split_on CHR ''/'' (join_with ''/'' (s1 # rest)) = s1 # rest"
      using split_on_join[of "s1 # rest" "CHR ''/''"] nosep by simp
    have split: "set (split_on CHR ''/'' ?r) \<subseteq> set (s1 # rest) \<union> {[]}"
      using segments(1,2) split0 split_on_snoc_sep[of "CHR ''/''" "join_with ''/'' (s1 # rest)"]
      by auto
    have a: "?r \<noteq> []" using r s1 by simp
    have b: "CHR 0x00 \<notin> set ?r"
    proof -
      have "set ?r \<subseteq> \<Union>(set ` set (s1 # rest)) \<union> set ''/'' \<union> set trail"
        using segments(1) set_join_with[of "''/''" "s1 # rest"] by auto
      also have "\<dots> \<subseteq> set ?ni \<union> {CHR ''/''}"
        using segments(2,3) by auto
      finally show ?thesis using nul_ni by auto
    qed
    have c: "\<not> startsWith ?r ''/''"
      using r s1 by (cases s1) (auto simp: startsWith_def)
    have d: "''..'' \<notin> set (split_on CHR ''/'' ?r)"
      using split nodd by auto
    from a b c d pr show ?thesis by (simp add: safe_path_def)
  qed
qed


lemma normalizeLoop_refines:
  assumes "NullElement \<notin> set cs" and "length acc \<le> 20"
  shows "normalizeLoop cs acc seen
           = Inr (take 20 (acc @ keepFirstByPath (List.map_filter candidateToEdit cs) seen))"
  using assms
proof (induction cs arbitrary: acc seen)
  case Nil
  then show ?case by (simp add: map_filter_simps)
next
  case (Cons e cs)
  from Cons.prems(1) obtain c where e: "e = Candidate c" by (cases e) auto
  from Cons.prems(1) have nonull: "NullElement \<notin> set cs" by simp
  show ?case
  proof (cases "length acc \<ge> 20")
    case True
    with Cons.prems(2) show ?thesis by (simp add: MAX_APPLY_EDITS_def)
  next
    case False
    then have lt: "length acc < 20" by simp
    show ?thesis
    proof (cases "candidateToEdit e")
      case None
      then have "normalizeLoop (e # cs) acc seen = normalizeLoop cs acc seen"
        using lt e
        by (auto simp: MAX_APPLY_EDITS_def Let_def
                 split: jsval.splits sum.splits if_splits)
      with None Cons.IH[OF nonull Cons.prems(2)] show ?thesis
        by (simp add: map_filter_simps)
    next
      case (Some ed)
      show ?thesis
      proof (cases "edit_path ed \<in> seen")
        case True
        with Some have "normalizeLoop (e # cs) acc seen = normalizeLoop cs acc seen"
          using lt e
          by (auto simp: MAX_APPLY_EDITS_def Let_def
                   split: jsval.splits sum.splits if_splits)
        with Some True Cons.IH[OF nonull Cons.prems(2)] show ?thesis
          by (simp add: map_filter_simps)
      next
        case False
        with Some have "normalizeLoop (e # cs) acc seen
            = normalizeLoop cs (acc @ [ed]) (insert (edit_path ed) seen)"
          using lt e
          by (auto simp: MAX_APPLY_EDITS_def Let_def
                   split: jsval.splits sum.splits if_splits)
        moreover have "length (acc @ [ed]) \<le> 20" using lt by simp
        ultimately show ?thesis
          using Some False Cons.IH[OF nonull, of "acc @ [ed]" "insert (edit_path ed) seen"]
          by (simp add: map_filter_simps)
      qed
    qed
  qed
qed

lemma keepFirstByPath_subset: "set (keepFirstByPath es seen) \<subseteq> set es"
  by (induction es arbitrary: seen) auto

lemma keepFirstByPath_unseen:
  "e \<in> set (keepFirstByPath es seen) \<Longrightarrow> edit_path e \<notin> seen"
  by (induction es arbitrary: seen) (auto split: if_splits)

lemma keepFirstByPath_distinct: "distinct (map edit_path (keepFirstByPath es seen))"
  by (induction es arbitrary: seen) (auto dest: keepFirstByPath_unseen)

lemma candidateToEdit_safe: "candidateToEdit c = Some e \<Longrightarrow> safe_path (edit_path e)"
  by (cases c)
     (auto split: jsval.splits sum.splits if_splits
           dest: normalizeRelativeSandboxPath_safe)


lemma trim_keeps_head:
  assumes "\<not> is_space c"
  shows "\<exists>t. trim (c # cs) = c # t"
proof -
  have "dropWhile is_space (rev cs @ [c]) = dropWhile is_space (rev cs) @ [c]"
    using assms by (simp add: dropWhile_append3)
  then show ?thesis using assms by (simp add: trim_def)
qed

lemma rejected_path_throws:
  assumes "rejected_path raw"
  shows "\<exists>err. normalizeRelativeSandboxPath raw = Inl err"
proof (cases "CHR 0x00 \<in> set raw")
  case True
  then show ?thesis by (simp add: normalizeRelativeSandboxPath_def)
next
  case nonul: False
  let ?ni = "trim (map (\<lambda>c. if c = CHR 0x5C then CHR ''/'' else c) raw)"
  show ?thesis
  proof (cases "startsWith raw ''/''")
    case True
    then obtain cs where raw: "raw = CHR ''/'' # cs"
      by (cases raw) (auto simp: startsWith_def)
    have "\<not> is_space CHR ''/''" by (simp add: is_space_def)
    then obtain t where "?ni = CHR ''/'' # t"
      using trim_keeps_head[of "CHR ''/''"] raw by auto
    then show ?thesis using nonul
      by (simp add: normalizeRelativeSandboxPath_def Let_def startsWith_def)
  next
    case False
    with assms nonul have esc: "posix_normalize ?ni = ''..'' \<or> startsWith (posix_normalize ?ni) ''../''"
      by (simp add: rejected_path_def Let_def)
    then have ni: "?ni \<noteq> []"
      by (auto simp: posix_normalize_def startsWith_def)
    from esc have "\<not> prefix ''./'' (posix_normalize ?ni)"
      by (auto simp: startsWith_def prefix_def)
    then have "stripDotSlash (posix_normalize ?ni) = posix_normalize ?ni"
      by (simp add: stripDotSlash_def)
    with esc ni nonul show ?thesis
      by (auto simp: normalizeRelativeSandboxPath_def Let_def)
  qed
qed

lemma rejected_candidate_dropped: "rejected_candidate c \<Longrightarrow> candidateToEdit c = None"
  by (cases c) (auto split: jsval.splits sum.splits dest: rejected_path_throws)

lemma map_filter_drop_rejected:
  "List.map_filter candidateToEdit (filter (\<lambda>c. \<not> rejected_candidate c) cs)
     = List.map_filter candidateToEdit cs"
  by (induction cs) (auto simp: map_filter_simps rejected_candidate_dropped split: option.splits)

text \<open>
  Claim C1, as amended. For every list of candidate objects the normalizer returns a list
  (it does not throw) of at most 20 edits. Every path in it is safe: not empty, without a
  null character, not absolute and without a \<open>..\<close> segment. The paths are pairwise
  distinct, and the list is the first 20 of the candidates' edits with only the first
  kept for each path. Candidates whose path has a null character, starts with a slash, or
  has a normal form that is \<open>..\<close> or starts with \<open>../\<close> contribute nothing: removing
  them from the input leaves the output as it is.
\<close>

theorem normalizer_safety:
  assumes "NullElement \<notin> set candidateEdits"
  shows "\<exists>out. normalizeCandidateEdits candidateEdits = Inr out
     \<and> length out \<le> 20
     \<and> (\<forall>e \<in> set out. safe_path (edit_path e))
     \<and> distinct (map edit_path out)
     \<and> out = take 20 (keepFirstByPath (List.map_filter candidateToEdit candidateEdits) {})
     \<and> normalizeCandidateEdits (filter (\<lambda>c. \<not> rejected_candidate c) candidateEdits) = Inr out"
proof -
  let ?all = "keepFirstByPath (List.map_filter candidateToEdit candidateEdits) {}"
  let ?out = "take 20 ?all"
  have r: "normalizeCandidateEdits candidateEdits = Inr ?out"
    using normalizeLoop_refines[OF assms, of "[]" "{}"] by (simp add: normalizeCandidateEdits_def)
  have l: "length ?out \<le> 20" by simp
  have s: "\<forall>e \<in> set ?out. safe_path (edit_path e)"
  proof
    fix e assume "e \<in> set ?out"
    then have "e \<in> set ?all" by (rule in_set_takeD)
    then have "e \<in> set (List.map_filter candidateToEdit candidateEdits)"
      using keepFirstByPath_subset by blast
    then obtain c where "candidateToEdit c = Some e"
      by (auto simp: map_filter_def)
    then show "safe_path (edit_path e)" by (rule candidateToEdit_safe)
  qed
  have d: "distinct (map edit_path ?out)"
    using keepFirstByPath_distinct[of "List.map_filter candidateToEdit candidateEdits" "{}"]
    by (simp add: take_map[symmetric] distinct_take)
  have "NullElement \<notin> set (filter (\<lambda>c. \<not> rejected_candidate c) candidateEdits)"
    using assms by simp
  then have f: "normalizeCandidateEdits (filter (\<lambda>c. \<not> rejected_candidate c) candidateEdits) = Inr ?out"
    using normalizeLoop_refines[of "filter (\<lambda>c. \<not> rejected_candidate c) candidateEdits" "[]" "{}"]
    by (simp add: normalizeCandidateEdits_def map_filter_drop_rejected)
  from r l s d f show ?thesis by blast
qed

theorem normalizer_safety_witness:
  "normalizeCandidateEdits
     [Candidate \<lparr> c_path = JString ''../etc/passwd'', c_content = JOther, c_delete = JTrue \<rparr>,
      Candidate \<lparr> c_path = JString ''/abs.ts'', c_content = JString ''1'', c_delete = JOther \<rparr>,
      Candidate \<lparr> c_path = JString (''a'' @ [CHR 0x00]), c_content = JString ''2'', c_delete = JOther \<rparr>,
      Candidate \<lparr> c_path = JString ''app/page.tsx'', c_content = JString ''x'', c_delete = JOther \<rparr>,
      Candidate \<lparr> c_path = JString ''./app//page.tsx'', c_content = JString ''y'', c_delete = JOther \<rparr>,
      Candidate \<lparr> c_path = JOther, c_content = JString ''z'', c_delete = JOther \<rparr>,
      Candidate \<lparr> c_path = JString ''old.ts'', c_content = JString ''w'', c_delete = JTrue \<rparr>]
   = Inr [ContentEdit ''app/page.tsx'' ''x'', DeleteEdit ''old.ts'']
   \<and> safe_path ''app/page.tsx'' \<and> safe_path ''old.ts''"
proof -
  let ?cs = "[Candidate \<lparr> c_path = JString ''../etc/passwd'', c_content = JOther, c_delete = JTrue \<rparr>,
      Candidate \<lparr> c_path = JString ''/abs.ts'', c_content = JString ''1'', c_delete = JOther \<rparr>,
      Candidate \<lparr> c_path = JString (''a'' @ [CHR 0x00]), c_content = JString ''2'', c_delete = JOther \<rparr>,
      Candidate \<lparr> c_path = JString ''app/page.tsx'', c_content = JString ''x'', c_delete = JOther \<rparr>,
      Candidate \<lparr> c_path = JString ''./app//page.tsx'', c_content = JString ''y'', c_delete = JOther \<rparr>,
      Candidate \<lparr> c_path = JOther, c_content = JString ''z'', c_delete = JOther \<rparr>,
      Candidate \<lparr> c_path = JString ''old.ts'', c_content = JString ''w'', c_delete = JTrue \<rparr>]"
  have n: "NullElement \<notin> set ?cs" by simp
  from normalizer_safety[OF n] obtain out where
    o: "normalizeCandidateEdits ?cs = Inr out"
    and s: "\<forall>e \<in> set out. safe_path (edit_path e)"
    and k: "out = take 20 (keepFirstByPath (List.map_filter candidateToEdit ?cs) {})"
    by blast
  have v: "take 20 (keepFirstByPath (List.map_filter candidateToEdit ?cs) {})
             = [ContentEdit ''app/page.tsx'' ''x'', DeleteEdit ''old.ts'']"
    by code_simp
  from k v have out: "out = [ContentEdit ''app/page.tsx'' ''x'', DeleteEdit ''old.ts'']" by simp
  from s out have "safe_path ''app/page.tsx''" "safe_path ''old.ts''" by simp_all
  with o out show ?thesis by simp
qed

text \<open>
  The claim as stated fails for a \<open>..\<close> segment that does not leave the root: the
  candidate with path \<open>a/../b\<close> is kept, under its normal form \<open>b\<close>.
\<close>

theorem inner_dotdot_counterexample:
  "''..'' \<in> set (split_on CHR ''/'' ''a/../b'')
   \<and> normalizeCandidateEdits
       [Candidate \<lparr> c_path = JString ''a/../b'', c_content = JString ''x'', c_delete = JOther \<rparr>]
     = Inr [ContentEdit ''b'' ''x'']"
  by code_simp

text \<open>An element \<open>null\<close> in the candidate array, as parsed JSON can hold, ends the loop with a \<open>TypeError\<close>.\<close>

lemma null_element_throws:
  "normalizeCandidateEdits [NullElement]
     = Inl ''TypeError: Cannot read properties of null (reading path)''"
  by (simp add: normalizeCandidateEdits_def MAX_APPLY_EDITS_def)

section \<open>The end of the stream\<close>


lemma appendMessage_keeps:
  "parserStateRef (appendMessage m h) = parserStateRef h"
  "s_error (state (appendMessage m h)) = s_error (state h)"
  "s_lifecycle (state (appendMessage m h)) = s_lifecycle (state h)"
  "s_previewUrl (state (appendMessage m h)) = s_previewUrl (state h)"
  by (simp_all add: appendMessage_def Let_def)

lemma processFrame_Continue:
  assumes "processFrame parse f rd h = Continue rd' h'"
  shows "rd' = (rd \<or> f = ''[DONE]'')" "parserStateRef h' = parserStateRef h"
    "undecided h \<Longrightarrow> undecided h'"
  using assms
  by (auto simp: processFrame_def Let_def undecided_def appendMessage_keeps
           split: if_splits parse_result.splits)

lemma processFrames_Continue:
  assumes "processFrames parse fs rd h = Continue rd' h'"
  shows "rd' = (rd \<or> ''[DONE]'' \<in> set fs) \<and> parserStateRef h' = parserStateRef h
    \<and> (undecided h \<longrightarrow> undecided h')"
  using assms
proof (induction fs arbitrary: rd h)
  case Nil
  then show ?case by simp
next
  case (Cons f fs)
  from Cons.prems obtain rd1 h1 where
    s: "processFrame parse f rd h = Continue rd1 h1"
    and r: "processFrames parse fs rd1 h1 = Continue rd' h'"
    by (cases "processFrame parse f rd h") auto
  from processFrame_Continue[OF s] Cons.IH[OF r] show ?case by auto
qed


lemma processTrailingFrame_Continue:
  assumes "processTrailingFrame parse f rd h = Continue rd' h'"
  shows "rd' = (rd \<or> f = ''[DONE]'')" "undecided h \<Longrightarrow> undecided h'"
  using assms
  by (auto simp: processTrailingFrame_def Let_def undecided_def appendMessage_keeps
           split: if_splits parse_result.splits)

lemma processTrailingFrames_Continue:
  assumes "processTrailingFrames parse fs rd h = Continue rd' h'"
  shows "rd' = (rd \<or> ''[DONE]'' \<in> set fs) \<and> (undecided h \<longrightarrow> undecided h')"
  using assms
proof (induction fs arbitrary: rd h)
  case Nil
  then show ?case by simp
next
  case (Cons f fs)
  from Cons.prems obtain rd1 h1 where
    s: "processTrailingFrame parse f rd h = Continue rd1 h1"
    and r: "processTrailingFrames parse fs rd1 h1 = Continue rd' h'"
    by (cases "processTrailingFrame parse f rd h") auto
  from processTrailingFrame_Continue[OF s] Cons.IH[OF r] show ?case by auto
qed

lemma chunkRead_Continue:
  assumes "chunkRead parse rid chunk rd h = Continue rd' h'"
  shows "rd' = (rd \<or> ''[DONE]'' \<in> set (fst (consumeSseDataFrames (parserStateRef h) chunk)))
    \<and> parserStateRef h' = snd (consumeSseDataFrames (parserStateRef h) chunk)
    \<and> (undecided h \<longrightarrow> undecided h')"
proof -
  let ?fed = "consumeSseDataFrames (parserStateRef h) chunk"
  let ?h1 = "h\<lparr> parserStateRef := snd ?fed \<rparr>"
  from assms have p: "processFrames parse (fst ?fed) rd ?h1 = Continue rd' h'"
    by (cases "processFrames parse (fst ?fed) rd ?h1") (auto simp: chunkRead_def Let_def)
  have "undecided h \<Longrightarrow> undecided ?h1" by (simp add: undecided_def)
  with processFrames_Continue[OF p] show ?thesis by auto
qed

lemma readChunks_Continue:
  assumes "readChunks parse rid chunks rd h = Continue rd' h'"
  shows "rd' = (rd \<or> ''[DONE]'' \<in> set (fst (feedChunks (parserStateRef h) chunks)))
    \<and> parserStateRef h' = snd (feedChunks (parserStateRef h) chunks)
    \<and> (undecided h \<longrightarrow> undecided h')"
  using assms
proof (induction chunks arbitrary: rd h)
  case Nil
  then show ?case by simp
next
  case (Cons c cs)
  from Cons.prems obtain rd1 h1 where
    s: "chunkRead parse rid c rd h = Continue rd1 h1"
    and r: "readChunks parse rid cs rd1 h1 = Continue rd' h'"
    by (cases "chunkRead parse rid c rd h") auto
  from chunkRead_Continue[OF s] Cons.IH[OF r] show ?case by (auto simp: Let_def)
qed

lemma start_fresh:
  assumes "trim prompt \<noteq> []"
  shows "parserStateRef (start prompt h) = []"
    "state (start prompt h) = INITIAL_STATE\<lparr> s_lifecycle := L_requesting, s_stage := S_queued \<rparr>"
    "abortControllerRef (start prompt h) = Some (requestIdRef (start prompt h))"
  using assms by (simp_all add: start_def Let_def resetForRun_def split: option.splits)

lemma finalizeStream_lifecycle:
  "s_lifecycle prev \<noteq> L_failed \<Longrightarrow> s_lifecycle prev \<noteq> L_canceled \<Longrightarrow>
     s_lifecycle (finalizeStream rd prev) = (if truthy (s_previewUrl prev) then L_ready else L_failed)"
  by (simp add: finalizeStream_def Let_def)

lemma finalizeStream_error:
  "s_lifecycle prev \<noteq> L_failed \<Longrightarrow> s_lifecycle prev \<noteq> L_canceled \<Longrightarrow>
   \<not> truthy (s_previewUrl prev) \<Longrightarrow> s_error prev = None \<Longrightarrow>
     s_error (finalizeStream rd prev)
       = Some (if rd then ''Generation finished but preview URL was not returned''
               else ''Generation stream ended before preview was ready'')"
  by (simp add: finalizeStream_def Let_def or_else_def)

lemma runBeforeLastUpdate_Continue:
  assumes "runBeforeLastUpdate parse prompt chunks h0 = Continue rd h"
  shows "undecided h" "rd = (''[DONE]'' \<in> set (decodeStream chunks))"
    "state (runStream parse prompt chunks h0) = finalizeStream rd (state h)"
proof -
  from assms have tp: "trim prompt \<noteq> []"
    by (auto simp: runBeforeLastUpdate_def split: if_splits)
  let ?h1 = "start prompt h0"
  let ?rid = "requestIdRef ?h1"
  let ?h2 = "?h1\<lparr> state := (state ?h1)\<lparr> s_lifecycle := L_streaming, s_stage := S_queued \<rparr> \<rparr>"
  have f: "fetchResolved ?rid None ?h1 = Continue False ?h2"
    by (simp add: fetchResolved_def)
  have u2: "undecided ?h2"
    using start_fresh(2)[OF tp, of h0] by (simp add: undecided_def INITIAL_STATE_def)
  have p2: "parserStateRef ?h2 = []" using start_fresh(1)[OF tp, of h0] by simp
  from assms tp f obtain rd3 h3 where
    r: "readChunks parse ?rid chunks False ?h2 = Continue rd3 h3"
    and t: "flushTrailing parse ?rid rd3 h3 = Continue rd h"
    by (cases "readChunks parse ?rid chunks False ?h2")
       (auto simp: runBeforeLastUpdate_def Let_def)
  from readChunks_Continue[OF r] u2 p2 have
    rd3: "rd3 = (''[DONE]'' \<in> set (fst (feedChunks [] chunks)))"
    and p3: "parserStateRef h3 = snd (feedChunks [] chunks)"
    and u3: "undecided h3" by auto
  let ?fl = "flushSseDataFrames (parserStateRef h3)"
  let ?h4 = "h3\<lparr> parserStateRef := snd ?fl \<rparr>"
  from t have pt: "processTrailingFrames parse (fst ?fl) rd3 ?h4 = Continue rd h"
    by (cases "processTrailingFrames parse (fst ?fl) rd3 ?h4")
       (auto simp: flushTrailing_def Let_def)
  have u4: "undecided ?h4" using u3 by (simp add: undecided_def)
  from processTrailingFrames_Continue[OF pt] u4 have
    rd: "rd = (rd3 \<or> ''[DONE]'' \<in> set (fst ?fl))" and u: "undecided h" by auto
  show "undecided h" by (rule u)
  show "rd = (''[DONE]'' \<in> set (decodeStream chunks))"
    using rd rd3 p3 by (auto simp: decodeStream_def Let_def)
  have "runStream parse prompt chunks h0 = streamClosed parse ?rid rd3 h3"
    using tp f r by (simp add: runStream_def Let_def)
  also have "\<dots> = finallyBlock ?rid (h\<lparr> state := finalizeStream rd (state h) \<rparr>)"
    using t by (simp add: streamClosed_def)
  finally show "state (runStream parse prompt chunks h0) = finalizeStream rd (state h)"
    by (simp add: finallyBlock_def)
qed

text \<open>
  Claim C6. Take a run up to the moment before its last \<open>setState\<close>. The lifecycle is
  then neither \<open>failed\<close> nor \<open>canceled\<close>, and \<open>receivedDone\<close> says whether the
  sentinel \<open>[DONE]\<close> was among the decoded frames. The last \<open>setState\<close> makes the
  lifecycle \<open>ready\<close> if a preview URL was recorded and \<open>failed\<close> otherwise; in the
  failed case the recorded error is one message when the sentinel was received and
  another when the stream ended before it, and the two differ. The lifecycle part holds
  for every state that is not yet \<open>failed\<close> or \<open>canceled\<close>.
\<close>

theorem stream_end_resolution:
  assumes "runBeforeLastUpdate parse prompt chunks h0 = Continue receivedDone h"
  shows "s_lifecycle (state h) \<noteq> L_failed \<and> s_lifecycle (state h) \<noteq> L_canceled
     \<and> receivedDone = (''[DONE]'' \<in> set (decodeStream chunks))
     \<and> state (runStream parse prompt chunks h0) = finalizeStream receivedDone (state h)
     \<and> s_lifecycle (state (runStream parse prompt chunks h0))
         = (if truthy (s_previewUrl (state h)) then L_ready else L_failed)
     \<and> (\<not> truthy (s_previewUrl (state h)) \<longrightarrow>
          s_error (state (runStream parse prompt chunks h0))
            = Some (if ''[DONE]'' \<in> set (decodeStream chunks)
                    then ''Generation finished but preview URL was not returned''
                    else ''Generation stream ended before preview was ready''))
     \<and> ''Generation finished but preview URL was not returned''
         \<noteq> ''Generation stream ended before preview was ready''
     \<and> (\<forall>rd prev. s_lifecycle prev \<noteq> L_failed \<and> s_lifecycle prev \<noteq> L_canceled \<longrightarrow>
          s_lifecycle (finalizeStream rd prev)
            = (if truthy (s_previewUrl prev) then L_ready else L_failed))"
proof -
  note r = runBeforeLastUpdate_Continue[OF assms]
  from r(1) have u: "s_error (state h) = None" "s_lifecycle (state h) \<noteq> L_failed"
    "s_lifecycle (state h) \<noteq> L_canceled" by (simp_all add: undecided_def)
  have a: "s_lifecycle (state (runStream parse prompt chunks h0))
         = (if truthy (s_previewUrl (state h)) then L_ready else L_failed)"
    unfolding r(3) using u(2,3) by (rule finalizeStream_lifecycle)
  have b: "\<not> truthy (s_previewUrl (state h)) \<longrightarrow>
          s_error (state (runStream parse prompt chunks h0))
            = Some (if ''[DONE]'' \<in> set (decodeStream chunks)
                    then ''Generation finished but preview URL was not returned''
                    else ''Generation stream ended before preview was ready'')"
    unfolding r(3) using finalizeStream_error[OF u(2,3) _ u(1), of receivedDone] r(2) by simp
  have c: "''Generation finished but preview URL was not returned''
         \<noteq> ''Generation stream ended before preview was ready''" by simp
  have d: "\<forall>rd prev. s_lifecycle prev \<noteq> L_failed \<and> s_lifecycle prev \<noteq> L_canceled \<longrightarrow>
          s_lifecycle (finalizeStream rd prev)
            = (if truthy (s_previewUrl prev) then L_ready else L_failed)"
    using finalizeStream_lifecycle by blast
  from u(2,3) r(2,3) a b c d show ?thesis by blast
qed

theorem stream_end_resolution_witness:
  "s_lifecycle (state (runStream exampleParse ''build a site''
       [''data: {type:complete}'' @ [LF, LF] @ ''data: [DONE]'' @ [LF, LF]] initialHook))
     = L_failed
   \<and> s_error (state (runStream exampleParse ''build a site''
       [''data: {type:complete}'' @ [LF, LF] @ ''data: [DONE]'' @ [LF, LF]] initialHook))
     = Some ''Generation finished but preview URL was not returned''
   \<and> s_lifecycle (state (runStream exampleParse ''build a site''
       [''data: {type:progress,message:npm install}'' @ [LF, LF]] initialHook))
     = L_failed
   \<and> s_error (state (runStream exampleParse ''build a site''
       [''data: {type:progress,message:npm install}'' @ [LF, LF]] initialHook))
     = Some ''Generation stream ended before preview was ready''"
proof -
  let ?c1 = "[''data: {type:complete}'' @ [LF, LF] @ ''data: [DONE]'' @ [LF, LF]]"
  let ?c2 = "[''data: {type:progress,message:npm install}'' @ [LF, LF]]"
  let ?h1 = "\<lparr> state =
      \<lparr> s_messages = [], s_previewUrl = None, s_sandboxId = None,
        s_lifecycle = L_provisioning_preview, s_stage = S_starting_preview,
        s_error = None, s_lastProgress = None, s_parseWarnings = 0 \<rparr>,
      abortControllerRef = Some 1, latestPromptRef = ''build a site'',
      parserStateRef = [], messageCounterRef = 0, requestIdRef = 1, aborted = {} \<rparr>"
  let ?h2 = "\<lparr> state =
      \<lparr> s_messages =
          [\<lparr> msg_id = ''gen-msg-1'',
             msg_event = \<lparr> ev_type = Some ''progress'', ev_message = Some ''npm install'',
                           ev_previewUrl = None, ev_sandboxId = None, ev_other = [] \<rparr> \<rparr>],
        s_previewUrl = None, s_sandboxId = None, s_lifecycle = L_streaming,
        s_stage = S_installing_deps, s_error = None,
        s_lastProgress = Some ''npm install'', s_parseWarnings = 0 \<rparr>,
      abortControllerRef = Some 1, latestPromptRef = ''build a site'',
      parserStateRef = [], messageCounterRef = 1, requestIdRef = 1, aborted = {} \<rparr>"
  have r1: "runBeforeLastUpdate exampleParse ''build a site'' ?c1 initialHook = Continue True ?h1"
    by code_simp
  have r2: "runBeforeLastUpdate exampleParse ''build a site'' ?c2 initialHook = Continue False ?h2"
    by code_simp
  have d1: "''[DONE]'' \<in> set (decodeStream ?c1)" by code_simp
  have d2: "''[DONE]'' \<notin> set (decodeStream ?c2)" by code_simp
  note t1 = stream_end_resolution[OF r1]
  note t2 = stream_end_resolution[OF r2]
  have a1: "s_lifecycle (state (runStream exampleParse ''build a site'' ?c1 initialHook)) = L_failed"
    using t1[THEN conjunct2, THEN conjunct2, THEN conjunct2, THEN conjunct2, THEN conjunct1]
    by simp
  have b1: "s_error (state (runStream exampleParse ''build a site'' ?c1 initialHook))
     = Some ''Generation finished but preview URL was not returned''"
    using t1[THEN conjunct2, THEN conjunct2, THEN conjunct2, THEN conjunct2, THEN conjunct2,
        THEN conjunct1] d1
    by simp
  have a2: "s_lifecycle (state (runStream exampleParse ''build a site'' ?c2 initialHook)) = L_failed"
    using t2[THEN conjunct2, THEN conjunct2, THEN conjunct2, THEN conjunct2, THEN conjunct1]
    by simp
  have b2: "s_error (state (runStream exampleParse ''build a site'' ?c2 initialHook))
     = Some ''Generation stream ended before preview was ready''"
    using t2[THEN conjunct2, THEN conjunct2, THEN conjunct2, THEN conjunct2, THEN conjunct2,
        THEN conjunct1] d2
    by simp
  show ?thesis by (intro conjI) (rule a1, rule b1, rule a2, rule b2)
qed

section \<open>A superseded run\<close>


text \<open>
  The request token is compared once, in the piece after \<open>await fetch\<close>: a run whose
  token is stale leaves the session state as it finds it there.
\<close>

lemma fetchResolved_stale:
  "requestId \<noteq> requestIdRef h \<Longrightarrow>
     state (hookOf (fetchResolved requestId responseError h)) = state h"
  by (simp add: fetchResolved_def hookOf_def finallyBlock_def)

text \<open>
  Claim C7. The claim asks that nothing a superseded run does reaches the state of the
  run that replaced it. In the scenario the second \<open>start\<close> has reset the state
  (lifecycle \<open>requesting\<close>, no progress, no messages) and the token is 2. The pieces of
  run 1 that come after it compare no token: the rejection of its pending \<open>await\<close>,
  caused by the abort, sets the lifecycle to \<open>canceled\<close>; a chunk it still reads writes
  its progress line, its stage and a message into the state; an \<open>error\<close> frame sets
  the lifecycle to \<open>failed\<close>, records the error and clears the controller reference of
  run 2; the close of its stream runs the last \<open>setState\<close> on the state of run 2.
\<close>

theorem superseded_run_writes_state:
  "requestIdRef supersededScenario = 2
   \<and> aborted supersededScenario = {1}
   \<and> s_lifecycle (state supersededScenario) = L_requesting
   \<and> s_lastProgress (state supersededScenario) = None
   \<and> s_messages (state supersededScenario) = []
   \<and> s_lifecycle (state (awaitRejected 1 ''The operation was aborted.'' supersededScenario))
       = L_canceled
   \<and> s_lastProgress (state (hookOf (chunkRead exampleParse 1
         (''data: {type:progress,message:npm install}'' @ [LF, LF]) False supersededScenario)))
       = Some ''npm install''
   \<and> s_stage (state (hookOf (chunkRead exampleParse 1
         (''data: {type:progress,message:npm install}'' @ [LF, LF]) False supersededScenario)))
       = S_installing_deps
   \<and> length (s_messages (state (hookOf (chunkRead exampleParse 1
         (''data: {type:progress,message:npm install}'' @ [LF, LF]) False supersededScenario))))
       = 1
   \<and> s_lifecycle (state (hookOf (chunkRead exampleParse 1
         (''data: {type:error,message:boom}'' @ [LF, LF]) False supersededScenario)))
       = L_failed
   \<and> s_error (state (hookOf (chunkRead exampleParse 1
         (''data: {type:error,message:boom}'' @ [LF, LF]) False supersededScenario)))
       = Some ''boom''
   \<and> abortControllerRef (hookOf (chunkRead exampleParse 1
         (''data: {type:error,message:boom}'' @ [LF, LF]) False supersededScenario))
       = None
   \<and> s_lifecycle (state (streamClosed exampleParse 1 False supersededScenario)) = L_failed"
  by code_simp

end
